theory Spec2Isabelle
  imports Main "HOL-Library.Word"
begin

unbundle bit_operations_syntax

section \<open>The slot allocator of package sharky\<close>

text \<open>
  Two versions of the free-slot bitvector are embedded here, function by function:
  \<^item> the version with a fixed size given to the constructor (\<open>newSlots(file, size)\<close>,
    \<open>load\<close>, \<open>save\<close>, \<open>push\<close>, \<open>pop\<close>, \<open>next\<close>); its functions whose names the
    other version also uses carry the suffix \<open>_fixed\<close>;
  \<^item> the version of \<open>pkg/sharky/slots.go\<close> guarded by a mutex (\<open>newSlots(file)\<close>,
    \<open>load\<close>, \<open>Save\<close>, \<open>Free\<close>, \<open>Use\<close>, \<open>Next\<close>, \<open>next\<close>, \<open>extend\<close>); its private
    \<open>next\<close> is called \<open>next_mtx\<close> here.
  Every public function of the second version holds the mutex for the whole call, so a
  call is one atomic step on the state; the mutex itself is not part of the state.

  \<open>uint32\<close> is \<open>32 word\<close>: \<open>+\<close> and \<open>-\<close> wrap around as in Go. A byte is \<open>8 word\<close>.
  An index expression \<open>sl.data[k]\<close> with \<open>k\<close> outside the slice panics in Go; the model
  returns \<open>Inl (IndexOutOfRange, s)\<close> with the state \<open>s\<close> the panic leaves behind. An
  error returned by the file is \<open>Inl (IOFailure, s)\<close>.
\<close>

type_synonym byte = "8 word"
type_synonym uint32 = "32 word"

datatype error = IOFailure | IndexOutOfRange

subsection \<open>The file behind the bitvector\<close>

datatype fileop = ReadAll | Truncate | Seek | Write | Sync

text \<open>
  Modelled from the spec: the interface \<open>sharkyFile\<close> is declared outside the files
  at hand. Its five operations are those the spec lists for the backing store ("read all
  current durable bytes; truncate to zero length; seek to start; write a complete byte
  sequence; flush to durable storage"), with the behaviour of an ordinary file that has
  a read/write position: reading returns the bytes from the position to the end, writing
  overwrites from the position on. The operations listed in \<open>failing\<close> return an error
  and change nothing.
\<close>

record sharkyFile =
  content :: "byte list"
  offset :: nat
  failing :: "fileop list"

definition file_ReadAll :: "sharkyFile \<Rightarrow> error + (byte list \<times> sharkyFile)" where
  "file_ReadAll f =
     (if ReadAll \<in> set (failing f) then Inl IOFailure
      else Inr (drop (offset f) (content f),
                f\<lparr>offset := max (offset f) (length (content f))\<rparr>))"

definition file_Truncate :: "nat \<Rightarrow> sharkyFile \<Rightarrow> error + sharkyFile" where
  "file_Truncate n f =
     (if Truncate \<in> set (failing f) then Inl IOFailure
      else Inr (f\<lparr>content := take n (content f) @ replicate (n - length (content f)) 0\<rparr>))"

definition file_Seek :: "nat \<Rightarrow> sharkyFile \<Rightarrow> error + sharkyFile" where
  "file_Seek n f =
     (if Seek \<in> set (failing f) then Inl IOFailure
      else Inr (f\<lparr>offset := n\<rparr>))"

definition file_Write :: "byte list \<Rightarrow> sharkyFile \<Rightarrow> error + sharkyFile" where
  "file_Write bs f =
     (if Write \<in> set (failing f) then Inl IOFailure
      else Inr (f\<lparr>content := take (offset f) (content f)
                               @ replicate (offset f - length (content f)) 0
                               @ bs
                               @ drop (offset f + length bs) (content f),
                  offset := offset f + length bs\<rparr>))"

definition file_Sync :: "sharkyFile \<Rightarrow> error + sharkyFile" where
  "file_Sync f = (if Sync \<in> set (failing f) then Inl IOFailure else Inr f)"

subsection \<open>The state\<close>

text \<open>
  The struct \<open>slots\<close> has the same fields in both versions (the mutex apart).
  The fields \<open>size\<close> and \<open>file\<close> are called \<open>size'\<close> and \<open>file'\<close>: \<open>size\<close> is a
  constant of HOL and \<open>file\<close> a keyword of Isabelle.
\<close>

record slots =
  data :: "byte list"
  head :: uint32
  size' :: uint32
  file' :: sharkyFile

text \<open>The test \<open>sl.data[i/8]&(1<<(i%8)) > 0\<close> of both \<open>next\<close> loops, and the two
  assignments \<open>|= 1 << (i % 8)\<close> and \<open>&= ^(1 << (i % 8))\<close>, on an index inside the slice.\<close>

definition bitmask :: "uint32 \<Rightarrow> byte" where
  "bitmask i = push_bit (unat (i mod 8)) 1"

definition bit_is_set :: "byte list \<Rightarrow> uint32 \<Rightarrow> bool" where
  "bit_is_set d i = (d ! unat (i div 8) AND bitmask i > 0)"

definition set_bit_at :: "byte list \<Rightarrow> uint32 \<Rightarrow> byte list" where
  "set_bit_at d i = d[unat (i div 8) := d ! unat (i div 8) OR bitmask i]"

definition clear_bit_at :: "byte list \<Rightarrow> uint32 \<Rightarrow> byte list" where
  "clear_bit_at d i = d[unat (i div 8) := d ! unat (i div 8) AND NOT (bitmask i)]"

definition in_slice :: "byte list \<Rightarrow> uint32 \<Rightarrow> bool" where
  "in_slice d i = (unat (i div 8) < length d)"

subsection \<open>The version with a fixed size\<close>

definition newSlots_fixed :: "sharkyFile \<Rightarrow> uint32 \<Rightarrow> slots" where
  "newSlots_fixed f sz = \<lparr>data = [], head = 0, size' = sz, file' = f\<rparr>"

text \<open>\<open>for i := sl.head; i < sl.size; i++\<close>: the loop of \<open>next\<close>, from \<open>i\<close> on.\<close>

function next_fixed_from :: "slots \<Rightarrow> uint32 \<Rightarrow> error + uint32" where
  "next_fixed_from sl i =
     (if i < size' sl then
        (if in_slice (data sl) i then
           (if bit_is_set (data sl) i then Inr i else next_fixed_from sl (i + 1))
         else Inl IndexOutOfRange)
      else Inr (size' sl))"
  by pat_completeness auto
termination
proof (relation "measure (\<lambda>(sl, i). unat (size' sl) - unat i)")
  show "wf (measure (\<lambda>(sl, i). unat (size' sl) - unat i))" by simp
next
  fix sl :: slots and i :: uint32
  assume a: "i < size' sl"
  have lt: "unat i < unat (size' sl)" using a by (simp add: word_less_nat_alt)
  have "unat (size' sl) < 2 ^ 32" using unsigned_less [of "size' sl"] by simp
  with lt have "unat i + 1 < 2 ^ 32" by linarith
  then have "unat (i + 1) = unat i + 1" by (simp add: unat_word_ariths)
  with lt show "((sl, i + 1), (sl, i)) \<in> measure (\<lambda>(sl, i). unat (size' sl) - unat i)"
    by simp
qed

declare next_fixed_from.simps [simp del]

definition next_fixed :: "slots \<Rightarrow> error + uint32" where
  "next_fixed sl = next_fixed_from sl (head sl)"

text \<open>\<open>for i := len(sl.data) * 8; i < int(sl.size); i += 8\<close>: the loop of \<open>load\<close> that
  appends one byte \<open>0xff\<close> per round. \<open>i\<close> is an \<open>int\<close> of 64 bits, which the length of a
  slice times 8 does not exceed; it is a natural number here.\<close>

function pad_from :: "byte list \<Rightarrow> nat \<Rightarrow> nat \<Rightarrow> byte list" where
  "pad_from d sz i = (if i < sz then pad_from (d @ [0xff]) sz (i + 8) else d)"
  by pat_completeness auto
termination
  by (relation "measure (\<lambda>(d, sz, i). sz - i)") auto

declare pad_from.simps [simp del]

definition load_fixed :: "slots \<Rightarrow> (error \<times> slots) + slots" where
  "load_fixed sl =
     (case file_ReadAll (file' sl) of
        Inl e \<Rightarrow> Inl (e, sl)
      | Inr (tmp, f) \<Rightarrow>
          (let sl1 = sl\<lparr>data := tmp, file' := f\<rparr>;
               sl2 = sl1\<lparr>data := pad_from (data sl1) (unat (size' sl1)) (length (data sl1) * 8)\<rparr>
           in case next_fixed sl2 of
                Inl e \<Rightarrow> Inl (e, sl2)
              | Inr h \<Rightarrow> Inr (sl2\<lparr>head := h\<rparr>)))"

definition save :: "slots \<Rightarrow> (error \<times> slots) + slots" where
  "save sl =
     (case file_Truncate 0 (file' sl) of
        Inl e \<Rightarrow> Inl (e, sl)
      | Inr f1 \<Rightarrow>
     (case file_Seek 0 f1 of
        Inl e \<Rightarrow> Inl (e, sl\<lparr>file' := f1\<rparr>)
      | Inr f2 \<Rightarrow>
     (case file_Write (data sl) f2 of
        Inl e \<Rightarrow> Inl (e, sl\<lparr>file' := f2\<rparr>)
      | Inr f3 \<Rightarrow>
     (case file_Sync f3 of
        Inl e \<Rightarrow> Inl (e, sl\<lparr>file' := f3\<rparr>)
      | Inr f4 \<Rightarrow> Inr (sl\<lparr>file' := f4\<rparr>)))))"

definition push :: "uint32 \<Rightarrow> slots \<Rightarrow> (error \<times> slots) + slots" where
  "push h sl =
     (let sl1 = (if h < head sl then sl\<lparr>head := h\<rparr> else sl)
      in if in_slice (data sl1) h
         then Inr (sl1\<lparr>data := set_bit_at (data sl1) h\<rparr>)
         else Inl (IndexOutOfRange, sl1))"

definition pop :: "slots \<Rightarrow> (error \<times> slots) + slots" where
  "pop sl =
     (let h = head sl
      in if h \<ge> size' sl then Inr sl
         else if in_slice (data sl) h
         then (let sl1 = sl\<lparr>data := clear_bit_at (data sl) h\<rparr>
               in case next_fixed sl1 of
                    Inl e \<Rightarrow> Inl (e, sl1)
                  | Inr i \<Rightarrow> Inr (sl1\<lparr>head := i\<rparr>))
         else Inl (IndexOutOfRange, sl))"

subsection \<open>The version of slots.go\<close>

definition newSlots :: "sharkyFile \<Rightarrow> slots" where
  "newSlots f = \<lparr>data = [], head = 0, size' = 0, file' = f\<rparr>"

text \<open>\<open>sl.data, err = io.ReadAll(sl.file)\<close> stores what was read also when \<open>err\<close> is set:
  \<open>io.ReadAll\<close> returns the bytes read before the error, which are none in this model
  of the file.\<close>

definition load :: "slots \<Rightarrow> (error \<times> slots) + slots" where
  "load sl =
     (case file_ReadAll (file' sl) of
        Inl e \<Rightarrow> Inl (e, sl\<lparr>data := []\<rparr>)
      | Inr (bs, f) \<Rightarrow> Inr (sl\<lparr>data := bs, file' := f, size' := of_nat (length bs * 8)\<rparr>))"

definition Save :: "slots \<Rightarrow> (error \<times> slots) + slots" where
  "Save sl =
     (case file_Truncate 0 (file' sl) of
        Inl e \<Rightarrow> Inl (e, sl)
      | Inr f1 \<Rightarrow>
     (case file_Seek 0 f1 of
        Inl e \<Rightarrow> Inl (e, sl\<lparr>file' := f1\<rparr>)
      | Inr f2 \<Rightarrow>
     (case file_Write (data sl) f2 of
        Inl e \<Rightarrow> Inl (e, sl\<lparr>file' := f2\<rparr>)
      | Inr f3 \<Rightarrow>
     (case file_Sync f3 of
        Inl e \<Rightarrow> Inl (e, sl\<lparr>file' := f3\<rparr>)
      | Inr f4 \<Rightarrow> Inr (sl\<lparr>file' := f4\<rparr>)))))"

definition Free :: "uint32 \<Rightarrow> slots \<Rightarrow> (error \<times> slots) + slots" where
  "Free slot sl =
     (let sl1 = (if slot < head sl then sl\<lparr>head := slot\<rparr> else sl)
      in if in_slice (data sl1) slot
         then Inr (sl1\<lparr>data := set_bit_at (data sl1) slot\<rparr>)
         else Inl (IndexOutOfRange, sl1))"

definition Use :: "uint32 \<Rightarrow> slots \<Rightarrow> (error \<times> slots) + slots" where
  "Use slot sl =
     (if in_slice (data sl) slot
      then Inr (sl\<lparr>data := clear_bit_at (data sl) slot\<rparr>)
      else Inl (IndexOutOfRange, sl))"

text \<open>\<open>extend(n int)\<close>: \<open>uint32(n)\<close> keeps the low 32 bits of \<open>n\<close>, and the loop
  \<open>for i := 0; i < n; i++\<close> runs \<open>n\<close> times, not at all when \<open>n\<close> is negative.\<close>

definition extend :: "int \<Rightarrow> slots \<Rightarrow> slots" where
  "extend n sl =
     sl\<lparr>size' := size' sl + word_of_int n * 8,
        data := data sl @ replicate (nat n) 0xff\<rparr>"

function next_mtx_from :: "slots \<Rightarrow> uint32 \<Rightarrow> (error \<times> slots) + (uint32 \<times> slots)" where
  "next_mtx_from sl i =
     (if i < size' sl then
        (if in_slice (data sl) i then
           (if bit_is_set (data sl) i then Inr (i, sl) else next_mtx_from sl (i + 1))
         else Inl (IndexOutOfRange, sl))
      else (let sl1 = extend 1 sl in Inr (size' sl1 - 8, sl1)))"
  by pat_completeness auto
termination
proof (relation "measure (\<lambda>(sl, i). unat (size' sl) - unat i)")
  show "wf (measure (\<lambda>(sl, i). unat (size' sl) - unat i))" by simp
next
  fix sl :: slots and i :: uint32
  assume a: "i < size' sl"
  have lt: "unat i < unat (size' sl)" using a by (simp add: word_less_nat_alt)
  have "unat (size' sl) < 2 ^ 32" using unsigned_less [of "size' sl"] by simp
  with lt have "unat i + 1 < 2 ^ 32" by linarith
  then have "unat (i + 1) = unat i + 1" by (simp add: unat_word_ariths)
  with lt show "((sl, i + 1), (sl, i)) \<in> measure (\<lambda>(sl, i). unat (size' sl) - unat i)"
    by simp
qed

declare next_mtx_from.simps [simp del]

definition next_mtx :: "slots \<Rightarrow> (error \<times> slots) + (uint32 \<times> slots)" where
  "next_mtx sl = next_mtx_from sl (head sl)"

definition Next :: "slots \<Rightarrow> (error \<times> slots) + (uint32 \<times> slots)" where
  "Next sl =
     (case next_mtx sl of
        Inl e \<Rightarrow> Inl e
      | Inr (h, sl1) \<Rightarrow> Inr (h, sl1\<lparr>head := h\<rparr>))"

subsection \<open>Notions used to state the properties\<close>

text \<open>A slot is free when its bit is 1 and used when it is 0; either way its byte lies
  inside the bitvector.\<close>

definition slot_used :: "slots \<Rightarrow> uint32 \<Rightarrow> bool" where
  "slot_used sl i = (in_slice (data sl) i \<and> \<not> bit_is_set (data sl) i)"

definition slot_free :: "slots \<Rightarrow> uint32 \<Rightarrow> bool" where
  "slot_free sl i = (in_slice (data sl) i \<and> bit_is_set (data sl) i)"

definition head_bound :: "slots \<Rightarrow> bool" where
  "head_bound sl = (\<forall>i. i < head sl \<longrightarrow> slot_used sl i)"

text \<open>The bitvector that \<open>load\<close> of the fixed-size version builds from the bytes \<open>bs\<close>
  of the file, for the size \<open>sz\<close>.\<close>

definition padded :: "byte list \<Rightarrow> uint32 \<Rightarrow> byte list" where
  "padded bs sz = pad_from bs (unat sz) (length bs * 8)"

text \<open>In slots.go the size is eight times the number of bytes, computed in \<open>uint32\<close>.\<close>

definition sized :: "slots \<Rightarrow> bool" where
  "sized t = (size' t = of_nat (8 * length (data t)))"

text \<open>
  Runs: a list of calls applied one after the other to a loaded state, stopping at the
  first call that fails. In the version of slots.go an allocation is \<open>Next\<close> followed
  by \<open>Use\<close> of the slot it returned; \<open>extend\<close> is called with a number of bytes.
\<close>

datatype op_fixed = DoPush uint32 | DoPop | DoSave

fun step_fixed :: "op_fixed \<Rightarrow> slots \<Rightarrow> (error \<times> slots) + slots" where
  "step_fixed (DoPush h) sl = push h sl"
| "step_fixed DoPop sl = pop sl"
| "step_fixed DoSave sl = save sl"

fun run_fixed :: "op_fixed list \<Rightarrow> slots \<Rightarrow> (error \<times> slots) + slots" where
  "run_fixed [] sl = Inr sl"
| "run_fixed (x # xs) sl =
     (case step_fixed x sl of Inl e \<Rightarrow> Inl e | Inr sl1 \<Rightarrow> run_fixed xs sl1)"

datatype op_mtx = CallNext | CallFree uint32 | CallUse uint32 | CallExtend nat | CallSave

fun step_mtx :: "op_mtx \<Rightarrow> slots \<Rightarrow> (error \<times> slots) + slots" where
  "step_mtx CallNext sl = (case Next sl of Inl e \<Rightarrow> Inl e | Inr (h, sl1) \<Rightarrow> Inr sl1)"
| "step_mtx (CallFree slot) sl = Free slot sl"
| "step_mtx (CallUse slot) sl = Use slot sl"
| "step_mtx (CallExtend n) sl = Inr (extend (int n) sl)"
| "step_mtx CallSave sl = Save sl"

fun run_mtx :: "op_mtx list \<Rightarrow> slots \<Rightarrow> (error \<times> slots) + slots" where
  "run_mtx [] sl = Inr sl"
| "run_mtx (x # xs) sl =
     (case step_mtx x sl of Inl e \<Rightarrow> Inl e | Inr sl1 \<Rightarrow> run_mtx xs sl1)"

section \<open>Lemmas\<close>

subsection \<open>Bits of the bitvector\<close>

lemma bitmask_pos: "unat (i mod 8 :: uint32) < 8"
  by (simp add: unat_mod)

lemma bit_is_set_iff: "bit_is_set d i = bit (d ! unat (i div 8)) (unat (i mod 8))"
  unfolding bit_is_set_def bitmask_def
  by (simp add: word_greater_zero_iff) (metis and_exp_eq_0_iff_not_bit)

lemma index_eqI:
  fixes i j :: uint32
  assumes "unat (i div 8) = unat (j div 8)" "unat (i mod 8) = unat (j mod 8)"
  shows "i = j"
proof -
  have "unat i = unat j" using assms
    by (simp add: unat_div unat_mod) (metis div_mult_mod_eq)
  then show ?thesis by (simp add: word_unat_eq_iff)
qed

lemma length_set_bit_at [simp]: "length (set_bit_at d i) = length d"
  by (simp add: set_bit_at_def)

lemma length_clear_bit_at [simp]: "length (clear_bit_at d i) = length d"
  by (simp add: clear_bit_at_def)

lemma in_slice_set_bit_at [simp]: "in_slice (set_bit_at d i) j = in_slice d j"
  by (simp add: in_slice_def)

lemma in_slice_clear_bit_at [simp]: "in_slice (clear_bit_at d i) j = in_slice d j"
  by (simp add: in_slice_def)

lemma bit_is_set_set_bit_at:
  assumes "in_slice d i"
  shows "bit_is_set (set_bit_at d i) j = (j = i \<or> bit_is_set d j)"
proof (cases "unat (j div 8) = unat (i div 8)")
  case True
  have 8: "unat (i mod 8) < 8" by (rule bitmask_pos)
  show ?thesis
  proof (cases "unat (j mod 8) = unat (i mod 8)")
    case m: True
    with True have "j = i" by (simp add: index_eqI)
    then show ?thesis using assms 8
      by (simp add: bit_is_set_iff set_bit_at_def in_slice_def bitmask_def bit_or_iff bit_push_bit_iff bit_exp_iff possible_bit_word)
  next
    case m: False
    then have "j \<noteq> i" by auto
    then show ?thesis using assms True m
      by (simp add: bit_is_set_iff set_bit_at_def in_slice_def bitmask_def bit_or_iff bit_push_bit_iff bit_1_iff bit_exp_iff possible_bit_word)
  qed
next
  case False
  then have "j \<noteq> i" by auto
  then show ?thesis using False
    by (simp add: bit_is_set_iff set_bit_at_def)
qed

lemma bit_is_set_clear_bit_at:
  assumes "in_slice d i"
  shows "bit_is_set (clear_bit_at d i) j = (j \<noteq> i \<and> bit_is_set d j)"
proof (cases "unat (j div 8) = unat (i div 8)")
  case True
  have 8: "unat (i mod 8) < 8" by (rule bitmask_pos)
  show ?thesis
  proof (cases "unat (j mod 8) = unat (i mod 8)")
    case m: True
    with True have "j = i" by (simp add: index_eqI)
    then show ?thesis using assms 8
      by (simp add: bit_is_set_iff clear_bit_at_def in_slice_def bitmask_def bit_and_iff bit_not_iff bit_push_bit_iff bit_exp_iff possible_bit_word)
  next
    case m: False
    then have "j \<noteq> i" by auto
    then show ?thesis using assms True m bitmask_pos [of j]
      by (simp add: bit_is_set_iff clear_bit_at_def in_slice_def bitmask_def bit_and_iff bit_not_iff bit_push_bit_iff bit_1_iff bit_exp_iff possible_bit_word)
  qed
next
  case False
  then have "j \<noteq> i" by auto
  then show ?thesis using False
    by (simp add: bit_is_set_iff clear_bit_at_def)
qed

subsection \<open>The scan of the fixed-size version\<close>

lemma word_succ_unat: "i < (m::uint32) \<Longrightarrow> unat (i + 1) = Suc (unat i)"
proof -
  assume a: "i < m"
  have lt: "unat i < unat m" using a by (simp add: word_less_nat_alt)
  have "unat m < 2 ^ 32" using unsigned_less [of m] by simp
  with lt have "unat i + 1 < 2 ^ 32" by linarith
  then show ?thesis by (simp add: unat_word_ariths)
qed

lemma word_less_succ: "i < (m::uint32) \<Longrightarrow> i \<le> i + 1"
  by (simp add: word_le_nat_alt word_succ_unat)

lemma word_succ_le: "i \<le> (j::uint32) \<Longrightarrow> j \<noteq> i \<Longrightarrow> i + 1 \<le> j"
  using inc_le [of i j] by simp

lemma next_fixed_from_result:
  "next_fixed_from sl i = Inr r \<Longrightarrow>
     (r = size' sl \<or> (i \<le> r \<and> r < size' sl \<and> slot_free sl r))"
proof (induction sl i rule: next_fixed_from.induct)
  case (1 sl i)
  show ?case
  proof (cases "i < size' sl \<and> in_slice (data sl) i \<and> \<not> bit_is_set (data sl) i")
    case True
    then have "next_fixed_from sl (i + 1) = Inr r"
      using "1.prems" by (simp add: next_fixed_from.simps [of sl i])
    with True "1.IH" have "r = size' sl \<or> (i + 1 \<le> r \<and> r < size' sl \<and> slot_free sl r)"
      by simp
    moreover have "i \<le> i + 1" using True word_less_succ [of i "size' sl"] by simp
    ultimately show ?thesis by fastforce
  next
    case False
    then show ?thesis using "1.prems"
      by (auto simp: slot_free_def next_fixed_from.simps [of sl i] split: if_splits)
  qed
qed

lemma next_fixed_from_skipped:
  "next_fixed_from sl i = Inr r \<Longrightarrow> i \<le> j \<Longrightarrow> j < r \<Longrightarrow> slot_used sl j"
proof (induction sl i rule: next_fixed_from.induct)
  case (1 sl i)
  show ?case
  proof (cases "i < size' sl \<and> in_slice (data sl) i \<and> \<not> bit_is_set (data sl) i")
    case True
    then have n: "next_fixed_from sl (i + 1) = Inr r"
      using "1.prems" by (simp add: next_fixed_from.simps [of sl i])
    show ?thesis
    proof (cases "j = i")
      case True
      then show ?thesis using \<open>i < size' sl \<and> in_slice (data sl) i \<and> \<not> bit_is_set (data sl) i\<close>
        by (simp add: slot_used_def)
    next
      case False
      then have "i + 1 \<le> j" using True "1.prems" by (simp add: word_succ_le)
      then show ?thesis using "1.IH" True n "1.prems" by simp
    qed
  next
    case False
    then show ?thesis using "1.prems"
      by (auto simp: next_fixed_from.simps [of sl i] split: if_splits)
  qed
qed

lemma next_fixed_from_total:
  "unat (size' sl) \<le> 8 * length (data sl) \<Longrightarrow> \<exists>r. next_fixed_from sl i = Inr r"
proof (induction sl i rule: next_fixed_from.induct)
  case (1 sl i)
  show ?case
  proof (cases "i < size' sl")
    case True
    then have "unat i < unat (size' sl)" by (simp add: word_less_nat_alt)
    with "1.prems" have s: "in_slice (data sl) i"
      by (simp add: in_slice_def unat_div)
    show ?thesis
    proof (cases "bit_is_set (data sl) i")
      case b: True
      with True s show ?thesis by (simp add: next_fixed_from.simps [of sl i])
    next
      case b: False
      with True s "1.IH" "1.prems" show ?thesis by (simp add: next_fixed_from.simps [of sl i])
    qed
  next
    case False
    then show ?thesis by (simp add: next_fixed_from.simps [of sl i])
  qed
qed

subsection \<open>The scan of slots.go\<close>

lemma next_mtx_from_result:
  "next_mtx_from sl i = Inr (r, sl') \<Longrightarrow>
     (sl' = sl \<and> i \<le> r \<and> r < size' sl \<and> slot_free sl r) \<or>
     (sl' = extend 1 sl \<and> r = size' sl)"
proof (induction sl i rule: next_mtx_from.induct)
  case (1 sl i)
  show ?case
  proof (cases "i < size' sl \<and> in_slice (data sl) i \<and> \<not> bit_is_set (data sl) i")
    case True
    then have "next_mtx_from sl (i + 1) = Inr (r, sl')"
      using "1.prems" by (simp add: next_mtx_from.simps [of sl i])
    with True "1.IH" have
      "(sl' = sl \<and> i + 1 \<le> r \<and> r < size' sl \<and> slot_free sl r) \<or>
       (sl' = extend 1 sl \<and> r = size' sl)"
      by simp
    moreover have "i \<le> i + 1" using True word_less_succ [of i "size' sl"] by simp
    ultimately show ?thesis by fastforce
  next
    case False
    then show ?thesis using "1.prems"
      by (auto simp: slot_free_def extend_def next_mtx_from.simps [of sl i] Let_def
               split: if_splits)
  qed
qed

lemma next_mtx_from_skipped:
  "next_mtx_from sl i = Inr (r, sl') \<Longrightarrow> i \<le> j \<Longrightarrow> j < r \<Longrightarrow> slot_used sl j"
proof (induction sl i rule: next_mtx_from.induct)
  case (1 sl i)
  show ?case
  proof (cases "i < size' sl \<and> in_slice (data sl) i \<and> \<not> bit_is_set (data sl) i")
    case True
    then have n: "next_mtx_from sl (i + 1) = Inr (r, sl')"
      using "1.prems" by (simp add: next_mtx_from.simps [of sl i])
    show ?thesis
    proof (cases "j = i")
      case True
      then show ?thesis
        using \<open>i < size' sl \<and> in_slice (data sl) i \<and> \<not> bit_is_set (data sl) i\<close>
        by (simp add: slot_used_def)
    next
      case False
      then have "i + 1 \<le> j" using "1.prems" by (simp add: word_succ_le)
      then show ?thesis using "1.IH" True n "1.prems" by simp
    qed
  next
    case False
    then show ?thesis using "1.prems"
      by (auto simp: next_mtx_from.simps [of sl i] extend_def Let_def split: if_splits)
  qed
qed

lemma next_mtx_from_panic:
  "next_mtx_from sl i = Inl (e, sl') \<Longrightarrow> e = IndexOutOfRange \<and> sl' = sl"
proof (induction sl i rule: next_mtx_from.induct)
  case (1 sl i)
  show ?case
  proof (cases "i < size' sl \<and> in_slice (data sl) i \<and> \<not> bit_is_set (data sl) i")
    case True
    then have "next_mtx_from sl (i + 1) = Inl (e, sl')"
      using "1.prems" by (simp add: next_mtx_from.simps [of sl i])
    with True "1.IH" show ?thesis by simp
  next
    case False
    then show ?thesis using "1.prems"
      by (auto simp: next_mtx_from.simps [of sl i] Let_def split: if_splits)
  qed
qed


subsection \<open>Padding\<close>

lemma pad_count_lt: "8 * n < sz \<Longrightarrow> Suc n \<le> (sz + 7) div (8::nat)"
  by (simp add: less_eq_div_iff_mult_less_eq)

lemma pad_count_ge: "sz \<le> 8 * n \<Longrightarrow> (sz + 7) div (8::nat) \<le> n"
  by (simp add: div_le_mono2 div_le_dividend less_eq_div_iff_mult_less_eq) 

lemma pad_from_replicate: "\<exists>k. pad_from d sz i = d @ replicate k 0xff"
proof (induction d sz i rule: pad_from.induct)
  case (1 d sz i)
  show ?case
  proof (cases "i < sz")
    case True
    then obtain k where "pad_from (d @ [0xff]) sz (i + 8) = (d @ [0xff]) @ replicate k 0xff"
      using "1.IH" by blast
    then have "pad_from d sz i = d @ replicate (Suc k) 0xff"
      using True by (simp add: pad_from.simps [of d sz i])
    then show ?thesis by blast
  next
    case False
    then have "pad_from d sz i = d @ replicate 0 0xff"
      by (simp add: pad_from.simps [of d sz i])
    then show ?thesis by blast
  qed
qed

lemma pad_from_length:
  "i = 8 * length d \<Longrightarrow> length (pad_from d sz i) = max (length d) ((sz + 7) div 8)"
proof (induction d sz i rule: pad_from.induct)
  case (1 d sz i)
  show ?case
  proof (cases "i < sz")
    case True
    have "length (pad_from (d @ [0xff]) sz (i + 8)) = max (length (d @ [0xff])) ((sz + 7) div 8)"
      using "1.IH" [OF True] "1.prems" by simp
    moreover have "Suc (length d) \<le> (sz + 7) div 8"
      using True "1.prems" pad_count_lt [of "length d" sz] by simp
    ultimately show ?thesis using True by (simp add: pad_from.simps [of d sz i])
  next
    case False
    then have "(sz + 7) div 8 \<le> length d"
      using "1.prems" pad_count_ge [of sz "length d"] by simp
    then show ?thesis using False by (simp add: pad_from.simps [of d sz i])
  qed
qed

lemma pad_from_id: "sz \<le> i \<Longrightarrow> pad_from d sz i = d"
  by (simp add: pad_from.simps [of d sz i])

subsection \<open>Single calls and the bound of the head\<close>

lemma slot_used_set_bit_at:
  "in_slice (data sl) h \<Longrightarrow> i \<noteq> h \<Longrightarrow>
   slot_used (sl\<lparr>data := set_bit_at (data sl) h\<rparr>) i = slot_used sl i"
  by (simp add: slot_used_def bit_is_set_set_bit_at)

lemma slot_used_clear_bit_at:
  "in_slice (data sl) h \<Longrightarrow>
   slot_used (sl\<lparr>data := clear_bit_at (data sl) h\<rparr>) i = (i = h \<or> slot_used sl i)"
  by (auto simp: slot_used_def bit_is_set_clear_bit_at)

lemma slot_used_head_update [simp]: "slot_used (sl\<lparr>head := h\<rparr>) i = slot_used sl i"
  by (simp add: slot_used_def)

lemma slot_used_file_update [simp]: "slot_used (sl\<lparr>file' := f\<rparr>) i = slot_used sl i"
  by (simp add: slot_used_def)

lemma slot_used_size_update [simp]: "slot_used (sl\<lparr>size' := n\<rparr>) i = slot_used sl i"
  by (simp add: slot_used_def)

lemma bit_is_set_append: "in_slice d i \<Longrightarrow> bit_is_set (d @ e) i = bit_is_set d i"
  by (simp add: bit_is_set_def in_slice_def nth_append)

lemma in_slice_append: "in_slice d i \<Longrightarrow> in_slice (d @ e) i"
  by (simp add: in_slice_def)

lemma slot_used_extend: "slot_used sl i \<Longrightarrow> slot_used (extend n sl) i"
  by (simp add: slot_used_def extend_def bit_is_set_append in_slice_append)

lemma head_extend [simp]: "head (extend n sl) = head sl"
  by (simp add: extend_def)

text \<open>push and Free\<close>

lemma push_eq_Free: "push = Free"
  by (intro ext) (simp add: push_def Free_def)

lemma Free_head_bound:
  assumes "head_bound sl"
  shows "Free slot sl = Inr sl' \<Longrightarrow> head_bound sl'"
    and "Free slot sl = Inl (e, sl') \<Longrightarrow> head_bound sl'"
proof -
  show "Free slot sl = Inr sl' \<Longrightarrow> head_bound sl'"
  proof -
    assume a: "Free slot sl = Inr sl'"
    show ?thesis
    proof (cases "slot < head sl")
      case True
      with a have s: "in_slice (data sl) slot"
        and e: "sl' = sl\<lparr>head := slot, data := set_bit_at (data sl) slot\<rparr>"
        by (auto simp: Free_def Let_def split: if_splits)
      have "slot_used sl' i" if "i < slot" for i
      proof -
        from that True have "i < head sl" by simp
        with assms have "slot_used sl i" by (simp add: head_bound_def)
        moreover have "i \<noteq> slot" using that by auto
        ultimately show ?thesis using s by (simp add: e slot_used_def bit_is_set_set_bit_at)
      qed
      then show ?thesis by (simp add: head_bound_def e)
    next
      case False
      with a have s: "in_slice (data sl) slot"
        and e: "sl' = sl\<lparr>data := set_bit_at (data sl) slot\<rparr>"
        by (auto simp: Free_def Let_def split: if_splits)
      have "slot_used sl' i" if "i < head sl" for i
      proof -
        from that assms have "slot_used sl i" by (simp add: head_bound_def)
        moreover have "i \<noteq> slot" using that False by auto
        ultimately show ?thesis using s by (simp add: e slot_used_def bit_is_set_set_bit_at)
      qed
      then show ?thesis by (simp add: head_bound_def e)
    qed
  qed
  show "Free slot sl = Inl (e, sl') \<Longrightarrow> head_bound sl'"
  proof -
    assume a: "Free slot sl = Inl (e, sl')"
    then have "sl' = sl \<or> (slot < head sl \<and> sl' = sl\<lparr>head := slot\<rparr>)"
      by (auto simp: Free_def Let_def split: if_splits)
    then show ?thesis using assms by (auto simp: head_bound_def)
  qed
qed

lemma Use_head_bound:
  assumes "head_bound sl"
  shows "Use slot sl = Inr sl' \<Longrightarrow> head_bound sl'"
    and "Use slot sl = Inl (e, sl') \<Longrightarrow> head_bound sl'"
  using assms
  by (auto simp: Use_def head_bound_def slot_used_clear_bit_at split: if_splits)

lemma extend_head_bound: "head_bound sl \<Longrightarrow> head_bound (extend n sl)"
  by (simp add: head_bound_def slot_used_extend)

lemma Save_head_bound:
  assumes "head_bound sl"
  shows "Save sl = Inr sl' \<Longrightarrow> head_bound sl'"
    and "Save sl = Inl (e, sl') \<Longrightarrow> head_bound sl'"
  using assms
  by (auto simp: Save_def head_bound_def split: sum.splits)

lemma save_eq_Save: "save = Save"
  by (intro ext) (simp add: save_def Save_def)

lemma Next_cases:
  assumes "Next sl = Inr (h, sl')"
  shows "(sl' = sl\<lparr>head := h\<rparr> \<and> head sl \<le> h \<and> h < size' sl \<and> slot_free sl h) \<or>
         (sl' = (extend 1 sl)\<lparr>head := h\<rparr> \<and> h = size' sl)"
proof -
  from assms obtain sl1 where n: "next_mtx_from sl (head sl) = Inr (h, sl1)"
    and e: "sl' = sl1\<lparr>head := h\<rparr>"
    by (auto simp: Next_def next_mtx_def split: sum.splits)
  from next_mtx_from_result [OF n] e show ?thesis by auto
qed

lemma Next_skipped:
  assumes "Next sl = Inr (h, sl')" "head sl \<le> i" "i < h"
  shows "slot_used sl i"
proof -
  from assms(1) obtain sl1 where n: "next_mtx_from sl (head sl) = Inr (h, sl1)"
    by (auto simp: Next_def next_mtx_def split: sum.splits)
  from next_mtx_from_skipped [OF n assms(2) assms(3)] show ?thesis .
qed

lemma Next_panic:
  assumes "Next sl = Inl (e, sl')"
  shows "e = IndexOutOfRange \<and> sl' = sl"
proof -
  from assms have "next_mtx_from sl (head sl) = Inl (e, sl')"
    by (auto simp: Next_def next_mtx_def split: sum.splits)
  then show ?thesis by (rule next_mtx_from_panic)
qed

lemma Next_head_bound:
  assumes "head_bound sl"
  shows "Next sl = Inr (h, sl') \<Longrightarrow> head_bound sl'"
    and "Next sl = Inl (e, sl') \<Longrightarrow> head_bound sl'"
proof -
  show "Next sl = Inr (h, sl') \<Longrightarrow> head_bound sl'"
  proof -
    assume a: "Next sl = Inr (h, sl')"
    have u: "slot_used sl i" if "i < h" for i
    proof (cases "i < head sl")
      case True
      with assms show ?thesis by (simp add: head_bound_def)
    next
      case False
      then have "head sl \<le> i" by simp
      from Next_skipped [OF a this that] show ?thesis .
    qed
    from Next_cases [OF a] show ?thesis
    proof
      assume "sl' = sl\<lparr>head := h\<rparr> \<and> head sl \<le> h \<and> h < size' sl \<and> slot_free sl h"
      then show ?thesis using u by (simp add: head_bound_def)
    next
      assume "sl' = (extend 1 sl)\<lparr>head := h\<rparr> \<and> h = size' sl"
      then show ?thesis using u by (simp add: head_bound_def slot_used_extend)
    qed
  qed
  show "Next sl = Inl (e, sl') \<Longrightarrow> head_bound sl'"
    using assms Next_panic by blast
qed

lemma pop_cases:
  assumes "pop sl = Inr sl'"
  shows "(size' sl \<le> head sl \<and> sl' = sl) \<or>
         (head sl < size' sl \<and> in_slice (data sl) (head sl) \<and>
          (\<exists>r. next_fixed_from (sl\<lparr>data := clear_bit_at (data sl) (head sl)\<rparr>) (head sl) = Inr r \<and>
               sl' = sl\<lparr>data := clear_bit_at (data sl) (head sl), head := r\<rparr>))"
  using assms
  by (auto simp: pop_def Let_def next_fixed_def split: if_splits sum.splits)

lemma pop_panic:
  assumes "pop sl = Inl (e, sl')"
  shows "e = IndexOutOfRange \<and> head sl < size' sl \<and>
         (sl' = sl \<or> (in_slice (data sl) (head sl) \<and> sl' = sl\<lparr>data := clear_bit_at (data sl) (head sl)\<rparr>))"
proof -
  have "next_fixed_from s i = Inl x \<Longrightarrow> x = IndexOutOfRange" for s i x
  proof (induction s i rule: next_fixed_from.induct)
    case (1 s i)
    then show ?case
      by (auto simp: next_fixed_from.simps [of s i] split: if_splits)
  qed
  then show ?thesis using assms
    by (auto simp: pop_def Let_def next_fixed_def split: if_splits sum.splits)
qed

lemma pop_head_bound:
  assumes "head_bound sl"
  shows "pop sl = Inr sl' \<Longrightarrow> head_bound sl'"
    and "pop sl = Inl (e, sl') \<Longrightarrow> head_bound sl'"
proof -
  show "pop sl = Inr sl' \<Longrightarrow> head_bound sl'"
  proof -
    assume a: "pop sl = Inr sl'"
    from pop_cases [OF a] show ?thesis
    proof
      assume "size' sl \<le> head sl \<and> sl' = sl"
      with assms show ?thesis by simp
    next
      assume b: "head sl < size' sl \<and> in_slice (data sl) (head sl) \<and>
          (\<exists>r. next_fixed_from (sl\<lparr>data := clear_bit_at (data sl) (head sl)\<rparr>) (head sl) = Inr r \<and>
               sl' = sl\<lparr>data := clear_bit_at (data sl) (head sl), head := r\<rparr>)"
      define sl1 where "sl1 = sl\<lparr>data := clear_bit_at (data sl) (head sl)\<rparr>"
      from b obtain r where n: "next_fixed_from sl1 (head sl) = Inr r"
        and e: "sl' = sl1\<lparr>head := r\<rparr>" and s: "in_slice (data sl) (head sl)"
        by (auto simp: sl1_def)
      have "slot_used sl1 i" if "i < r" for i
      proof (cases "i < head sl")
        case True
        with assms have "slot_used sl i" by (simp add: head_bound_def)
        then show ?thesis using s by (simp add: sl1_def slot_used_clear_bit_at)
      next
        case False
        then have "head sl \<le> i" by simp
        from next_fixed_from_skipped [OF n this that] show ?thesis .
      qed
      then show ?thesis by (simp add: head_bound_def e)
    qed
  qed
  show "pop sl = Inl (e, sl') \<Longrightarrow> head_bound sl'"
  proof -
    assume a: "pop sl = Inl (e, sl')"
    from pop_panic [OF a] assms show ?thesis
      by (auto simp: head_bound_def slot_used_clear_bit_at)
  qed
qed

subsection \<open>Loading\<close>

lemma length_padded: "length (padded bs sz) = max (length bs) ((unat sz + 7) div 8)"
  unfolding padded_def by (rule pad_from_length) simp

lemma padded_covers: "unat sz \<le> 8 * length (padded bs sz)"
proof -
  have "unat sz \<le> 8 * ((unat sz + 7) div 8)" by presburger
  also have "\<dots> \<le> 8 * length (padded bs sz)" by (simp add: length_padded)
  finally show ?thesis .
qed

lemma padded_id: "unat sz \<le> 8 * length bs \<Longrightarrow> padded bs sz = bs"
  unfolding padded_def by (rule pad_from_id) (simp add: mult.commute)

lemma load_fixed_unfold:
  assumes "file_ReadAll (file' sl) = Inr (bs, f)"
  shows "load_fixed sl =
     (case next_fixed_from (sl\<lparr>file' := f, data := padded bs (size' sl)\<rparr>) (head sl) of
        Inl e \<Rightarrow> Inl (e, sl\<lparr>file' := f, data := padded bs (size' sl)\<rparr>)
      | Inr h \<Rightarrow> Inr (sl\<lparr>file' := f, data := padded bs (size' sl), head := h\<rparr>))"
  using assms
  by (simp add: load_fixed_def Let_def next_fixed_def padded_def split: sum.splits)

lemma load_fixed_result:
  assumes "load_fixed sl = Inr s"
  shows "\<exists>bs f r. file_ReadAll (file' sl) = Inr (bs, f) \<and>
           next_fixed_from (sl\<lparr>file' := f, data := padded bs (size' sl)\<rparr>) (head sl) = Inr r \<and>
           s = sl\<lparr>file' := f, data := padded bs (size' sl), head := r\<rparr>"
proof (cases "file_ReadAll (file' sl)")
  case (Inl e)
  with assms show ?thesis by (simp add: load_fixed_def)
next
  case (Inr p)
  obtain bs f where p: "p = (bs, f)" by (cases p)
  from assms load_fixed_unfold [of sl bs f] Inr p show ?thesis
    by (auto split: sum.splits)
qed

lemma load_fixed_total:
  assumes "file_ReadAll (file' sl) = Inr (bs, f)"
  shows "\<exists>r. load_fixed sl = Inr (sl\<lparr>file' := f, data := padded bs (size' sl), head := r\<rparr>)"
proof -
  let ?s = "sl\<lparr>file' := f, data := padded bs (size' sl)\<rparr>"
  have "unat (size' ?s) \<le> 8 * length (data ?s)" by (simp add: padded_covers)
  from next_fixed_from_total [OF this, of "head sl"]
  obtain r where "next_fixed_from ?s (head sl) = Inr r" by blast
  then have "load_fixed sl = Inr (sl\<lparr>file' := f, data := padded bs (size' sl), head := r\<rparr>)"
    by (simp add: load_fixed_unfold [OF assms])
  then show ?thesis by blast
qed

lemma load_fixed_head_bound:
  assumes "head sl = 0" "load_fixed sl = Inr s"
  shows "head_bound s"
proof -
  from load_fixed_result [OF assms(2)] obtain bs f r where
    n: "next_fixed_from (sl\<lparr>file' := f, data := padded bs (size' sl)\<rparr>) (head sl) = Inr r"
    and s: "s = sl\<lparr>file' := f, data := padded bs (size' sl), head := r\<rparr>"
    by blast
  have "slot_used (sl\<lparr>file' := f, data := padded bs (size' sl)\<rparr>) i" if "i < r" for i
    using next_fixed_from_skipped [OF n _ that] assms(1) by simp
  then show ?thesis by (simp add: head_bound_def s slot_used_def)
qed

lemma load_result:
  assumes "load sl = Inr t"
  shows "\<exists>bs f. file_ReadAll (file' sl) = Inr (bs, f) \<and>
           t = sl\<lparr>data := bs, file' := f, size' := of_nat (length bs * 8)\<rparr>"
  using assms by (auto simp: load_def split: sum.splits)

lemma load_head_bound:
  assumes "head sl = 0" "load sl = Inr t"
  shows "head_bound t"
  using load_result [OF assms(2)] assms(1) by (auto simp: head_bound_def)

subsection \<open>Runs\<close>

lemma run_fixed_invariant:
  assumes step: "\<And>x s s'. P s \<Longrightarrow> step_fixed x s = Inr s' \<Longrightarrow> P s'"
  shows "P s \<Longrightarrow> run_fixed ops s = Inr s' \<Longrightarrow> P s'"
proof (induction ops arbitrary: s)
  case Nil
  then show ?case by simp
next
  case (Cons x xs)
  from Cons.prems(2) obtain s1 where a: "step_fixed x s = Inr s1" and b: "run_fixed xs s1 = Inr s'"
    by (auto split: sum.splits)
  from step [OF Cons.prems(1) a] have "P s1" .
  from Cons.IH [OF this b] show ?case .
qed

lemma run_mtx_invariant:
  assumes step: "\<And>x s s'. P s \<Longrightarrow> step_mtx x s = Inr s' \<Longrightarrow> P s'"
  shows "P s \<Longrightarrow> run_mtx ops s = Inr s' \<Longrightarrow> P s'"
proof (induction ops arbitrary: s)
  case Nil
  then show ?case by simp
next
  case (Cons x xs)
  from Cons.prems(2) obtain s1 where a: "step_mtx x s = Inr s1" and b: "run_mtx xs s1 = Inr s'"
    by (auto split: sum.splits)
  from step [OF Cons.prems(1) a] have "P s1" .
  from Cons.IH [OF this b] show ?case .
qed

lemma step_fixed_head_bound:
  assumes "head_bound s" "step_fixed x s = Inr s'"
  shows "head_bound s'"
proof (cases x)
  case (DoPush h)
  with assms show ?thesis using Free_head_bound(1) [of s h s'] by (simp add: push_eq_Free)
next
  case DoPop
  with assms show ?thesis using pop_head_bound(1) [of s s'] by simp
next
  case DoSave
  with assms show ?thesis using Save_head_bound(1) [of s s'] by (simp add: save_eq_Save)
qed

lemma step_mtx_head_bound:
  assumes "head_bound s" "step_mtx x s = Inr s'"
  shows "head_bound s'"
proof (cases x)
  case CallNext
  with assms obtain h where "Next s = Inr (h, s')" by (auto split: sum.splits)
  from Next_head_bound(1) [OF assms(1) this] show ?thesis .
next
  case (CallFree slot)
  with assms show ?thesis using Free_head_bound(1) [of s slot s'] by simp
next
  case (CallUse slot)
  with assms show ?thesis using Use_head_bound(1) [of s slot s'] by simp
next
  case (CallExtend n)
  with assms show ?thesis using extend_head_bound [of s "int n"] by auto
next
  case CallSave
  with assms show ?thesis using Save_head_bound(1) [of s s'] by simp
qed

section \<open>The head is a lower bound\<close>

text \<open>
  C1. After \<open>load\<close> on a new allocator and after every later call (\<open>push\<close>, \<open>pop\<close>,
  \<open>save\<close> in the fixed-size version; \<open>Next\<close>, \<open>Free\<close>, \<open>Use\<close>, \<open>extend\<close>, \<open>Save\<close> in
  slots.go), every slot index strictly below the head is used: its byte is inside the
  bitvector and its bit is 0.
\<close>

theorem head_is_lower_bound:
  "(load_fixed (newSlots_fixed f sz) = Inr s0 \<longrightarrow> run_fixed ops s0 = Inr s \<longrightarrow>
      (\<forall>i. i < head s \<longrightarrow> slot_used s i)) \<and>
   (load (newSlots g) = Inr t0 \<longrightarrow> run_mtx calls t0 = Inr t \<longrightarrow>
      (\<forall>i. i < head t \<longrightarrow> slot_used t i))"
proof (intro conjI impI)
  assume a: "load_fixed (newSlots_fixed f sz) = Inr s0" and b: "run_fixed ops s0 = Inr s"
  have "head_bound s0" using load_fixed_head_bound [OF _ a] by (simp add: newSlots_fixed_def)
  then have "head_bound s" using b step_fixed_head_bound run_fixed_invariant [of head_bound s0 ops s]
    by blast
  then show "\<forall>i. i < head s \<longrightarrow> slot_used s i" by (simp add: head_bound_def)
next
  assume a: "load (newSlots g) = Inr t0" and b: "run_mtx calls t0 = Inr t"
  have "head_bound t0" using load_head_bound [OF _ a] by (simp add: newSlots_def)
  then have "head_bound t" using b step_mtx_head_bound run_mtx_invariant [of head_bound t0 calls t]
    by blast
  then show "\<forall>i. i < head t \<longrightarrow> slot_used t i" by (simp add: head_bound_def)
qed

theorem head_is_lower_bound_witness:
  "load_fixed (newSlots_fixed \<lparr>content = [], offset = 0, failing = []\<rparr> 16)
     = Inr \<lparr>data = [0xff, 0xff], head = 0, size' = 16,
            file' = \<lparr>content = [], offset = 0, failing = []\<rparr>\<rparr> \<and>
   run_fixed [DoPop, DoPop, DoPop, DoPush 1, DoPop]
       \<lparr>data = [0xff, 0xff], head = 0, size' = 16,
        file' = \<lparr>content = [], offset = 0, failing = []\<rparr>\<rparr>
     = Inr \<lparr>data = [0xf8, 0xff], head = 3, size' = 16,
            file' = \<lparr>content = [], offset = 0, failing = []\<rparr>\<rparr> \<and>
   slot_used \<lparr>data = [0xf8, 0xff], head = 3, size' = 16,
            file' = \<lparr>content = [], offset = 0, failing = []\<rparr>\<rparr> 2 \<and>
   load (newSlots \<lparr>content = [], offset = 0, failing = []\<rparr>)
     = Inr \<lparr>data = [], head = 0, size' = 0,
            file' = \<lparr>content = [], offset = 0, failing = []\<rparr>\<rparr> \<and>
   run_mtx [CallNext, CallUse 0, CallNext, CallUse 1, CallNext, CallUse 2, CallFree 1, CallNext]
       \<lparr>data = [], head = 0, size' = 0,
        file' = \<lparr>content = [], offset = 0, failing = []\<rparr>\<rparr>
     = Inr \<lparr>data = [0xfa], head = 1,  size' = 8,
            file' = \<lparr>content = [], offset = 0, failing = []\<rparr>\<rparr> \<and>
   slot_used \<lparr>data = [0xfa], head = 1, size' = 8,
            file' = \<lparr>content = [], offset = 0, failing = []\<rparr>\<rparr> 0"
proof -
  let ?F = "\<lparr>content = [], offset = 0, failing = []\<rparr>"
  let ?Sa = "\<lparr>data = [0xff, 0xff], head = 0, size' = 16, file' = ?F\<rparr>"
  let ?Sb = "\<lparr>data = [0xf8, 0xff], head = 3, size' = 16, file' = ?F\<rparr>"
  let ?Ta = "\<lparr>data = [], head = 0, size' = 0, file' = ?F\<rparr>"
  let ?Tb = "\<lparr>data = [0xfa], head = 1, size' = 8, file' = ?F\<rparr>"
  let ?ops = "[DoPop, DoPop, DoPop, DoPush 1, DoPop]"
  let ?calls = "[CallNext, CallUse 0, CallNext, CallUse 1, CallNext, CallUse 2, CallFree 1, CallNext]"
  have a: "load_fixed (newSlots_fixed ?F 16) = Inr ?Sa" by code_simp
  have b: "run_fixed ?ops ?Sa = Inr ?Sb" by code_simp
  have c: "load (newSlots ?F) = Inr ?Ta" by code_simp
  have d: "run_mtx ?calls ?Ta = Inr ?Tb" by code_simp
  from head_is_lower_bound [of ?F 16 ?Sa ?ops ?Sb ?F ?Ta ?calls ?Tb] a b c d
  have "(\<forall>i. i < head ?Sb \<longrightarrow> slot_used ?Sb i) \<and> (\<forall>i. i < head ?Tb \<longrightarrow> slot_used ?Tb i)"
    by blast
  then have "slot_used ?Sb 2 \<and> slot_used ?Tb 0" by simp
  with a b c d show ?thesis by blast
qed

section \<open>Release\<close>

lemma in_slice_below_size:
  assumes "slot < size' sl" "unat (size' sl) \<le> 8 * length (data sl)"
  shows "in_slice (data sl) slot"
proof -
  have "unat slot < unat (size' sl)" using assms(1) by (simp add: word_less_nat_alt)
  with assms(2) have "unat slot < 8 * length (data sl)" by simp
  then show ?thesis by (simp add: in_slice_def unat_div)
qed

lemma set_bit_at_id:
  assumes "in_slice d i" "bit_is_set d i"
  shows "set_bit_at d i = d"
proof -
  have 8: "unat (i mod 8) < 8" by (rule bitmask_pos)
  have b: "bit (d ! unat (i div 8)) (unat (i mod 8))" using assms(2) by (simp add: bit_is_set_iff)
  have "d ! unat (i div 8) OR bitmask i = d ! unat (i div 8)"
  proof (rule bit_eqI)
    fix n
    show "bit (d ! unat (i div 8) OR bitmask i) n = bit (d ! unat (i div 8)) n"
      using b by (auto simp: bitmask_def bit_or_iff bit_push_bit_iff bit_1_iff bit_exp_iff)
  qed
  then show ?thesis by (simp add: set_bit_at_def)
qed

lemma Free_in_slice:
  assumes "in_slice (data sl) slot"
  shows "Free slot sl = Inr (sl\<lparr>head := if slot < head sl then slot else head sl,
                                 data := set_bit_at (data sl) slot\<rparr>)"
  using assms by (simp add: Free_def Let_def)

text \<open>
  C8. For a slot below the size of a state whose bitvector covers its size (as it does
  after \<open>load\<close>), \<open>push\<close> and \<open>Free\<close> succeed with the same state: the slot's bit is 1,
  no other bit has changed, the bitvector has the same length, the head is the slot when
  the slot was below the head and is unchanged otherwise, and size and file are unchanged.
  When the slot was free already the bytes are the same as before. Releasing the slot
  again returns the very same state.
\<close>

theorem release_semantics:
  assumes "slot < size' sl" and "unat (size' sl) \<le> 8 * length (data sl)"
  shows "\<exists>sl'. push slot sl = Inr sl' \<and> Free slot sl = Inr sl' \<and>
           slot_free sl' slot \<and>
           (\<forall>j. j \<noteq> slot \<longrightarrow> bit_is_set (data sl') j = bit_is_set (data sl) j) \<and>
           length (data sl') = length (data sl) \<and>
           head sl' = (if slot < head sl then slot else head sl) \<and>
           size' sl' = size' sl \<and> file' sl' = file' sl \<and>
           (slot_free sl slot \<longrightarrow> data sl' = data sl) \<and>
           push slot sl' = Inr sl' \<and> Free slot sl' = Inr sl'"
proof -
  define sl' where "sl' = sl\<lparr>head := if slot < head sl then slot else head sl,
                                 data := set_bit_at (data sl) slot\<rparr>"
  have s: "in_slice (data sl) slot" using assms by (rule in_slice_below_size)
  have f: "Free slot sl = Inr sl'" unfolding sl'_def using s by (rule Free_in_slice)
  have s': "in_slice (data sl') slot" using s by (simp add: sl'_def)
  have b: "bit_is_set (data sl') slot" using s by (simp add: sl'_def bit_is_set_set_bit_at)
  have idem: "Free slot sl' = Inr sl'"
  proof -
    have "set_bit_at (data sl') slot = data sl'" using s' b by (rule set_bit_at_id)
    moreover have "\<not> slot < head sl'" by (simp add: sl'_def)
    ultimately show ?thesis using s' by (simp add: Free_def Let_def)
  qed
  have other: "\<forall>j. j \<noteq> slot \<longrightarrow> bit_is_set (data sl') j = bit_is_set (data sl) j"
    using s by (simp add: sl'_def bit_is_set_set_bit_at)
  have same: "slot_free sl slot \<longrightarrow> data sl' = data sl"
    using s by (simp add: sl'_def slot_free_def set_bit_at_id)
  have rest: "length (data sl') = length (data sl)"
      "head sl' = (if slot < head sl then slot else head sl)"
      "size' sl' = size' sl" "file' sl' = file' sl"
    by (simp_all add: sl'_def)
  have "slot_free sl' slot" using s' b by (simp add: slot_free_def)
  with f idem other same rest show ?thesis
    unfolding push_eq_Free by blast
qed

text \<open>The theorem at slot 1 of a state with the slots 0, 1 and 2 used and the head at 3.\<close>

theorem release_semantics_witness:
  "(1::uint32) < size' \<lparr>data = [0xf8, 0xff], head = 3, size' = 16,
                         file' = \<lparr>content = [], offset = 0, failing = []\<rparr>\<rparr> \<and>
   unat (size' \<lparr>data = [0xf8, 0xff], head = 3, size' = 16,
                 file' = \<lparr>content = [], offset = 0, failing = []\<rparr>\<rparr>)
     \<le> 8 * length (data \<lparr>data = [0xf8, 0xff], head = 3, size' = 16,
                           file' = \<lparr>content = [], offset = 0, failing = []\<rparr>\<rparr>) \<and>
   push 1 \<lparr>data = [0xf8, 0xff], head = 3, size' = 16,
           file' = \<lparr>content = [], offset = 0, failing = []\<rparr>\<rparr>
     = Inr \<lparr>data = [0xfa, 0xff], head = 1, size' = 16,
            file' = \<lparr>content = [], offset = 0, failing = []\<rparr>\<rparr> \<and>
   slot_free \<lparr>data = [0xfa, 0xff], head = 1, size' = 16,
              file' = \<lparr>content = [], offset = 0, failing = []\<rparr>\<rparr> 1 \<and>
   Free 1 \<lparr>data = [0xfa, 0xff], head = 1, size' = 16,
           file' = \<lparr>content = [], offset = 0, failing = []\<rparr>\<rparr>
     = Inr \<lparr>data = [0xfa, 0xff], head = 1, size' = 16,
            file' = \<lparr>content = [], offset = 0, failing = []\<rparr>\<rparr>"
proof -
  let ?F = "\<lparr>content = [], offset = 0, failing = []\<rparr>"
  let ?A = "\<lparr>data = [0xf8, 0xff], head = 3, size' = 16, file' = ?F\<rparr>"
  let ?B = "\<lparr>data = [0xfa, 0xff], head = 1, size' = 16, file' = ?F\<rparr>"
  have h1: "(1::uint32) < size' ?A" by simp
  have h2: "unat (size' ?A) \<le> 8 * length (data ?A)" by simp
  have e: "push 1 ?A = Inr ?B" by code_simp
  from release_semantics [OF h1 h2] obtain sl' where
    p: "push 1 ?A = Inr sl'" and f: "slot_free sl' 1" and i: "Free 1 sl' = Inr sl'"
    by blast
  from p e have "sl' = ?B" by simp
  with f i have "slot_free ?B 1 \<and> Free 1 ?B = Inr ?B" by simp
  with h1 h2 e show ?thesis by blast
qed

section \<open>No double allocation\<close>

lemma pop_advances:
  assumes "head sl < size' sl" "pop sl = Inr sl1"
  shows "head sl < head sl1 \<and> slot_used sl1 (head sl)"
proof -
  define sl0 where "sl0 = sl\<lparr>data := clear_bit_at (data sl) (head sl)\<rparr>"
  from pop_cases [OF assms(2)] assms(1) obtain r where
    s: "in_slice (data sl) (head sl)" and
    n: "next_fixed_from sl0 (head sl) = Inr r" and
    e: "sl1 = sl0\<lparr>head := r\<rparr>"
    by (auto simp: sl0_def)
  have u: "slot_used sl0 (head sl)" using s by (simp add: sl0_def slot_used_clear_bit_at)
  have "head sl < r"
  proof -
    from next_fixed_from_result [OF n]
    have "r = size' sl0 \<or> (head sl \<le> r \<and> r < size' sl0 \<and> slot_free sl0 r)" .
    then show ?thesis
    proof
      assume "r = size' sl0"
      then show ?thesis using assms(1) by (simp add: sl0_def)
    next
      assume a: "head sl \<le> r \<and> r < size' sl0 \<and> slot_free sl0 r"
      then have "r \<noteq> head sl" using u by (auto simp: slot_free_def slot_used_def)
      with a show ?thesis by (simp add: order_less_le)
    qed
  qed
  then show ?thesis using u by (simp add: e slot_used_def)
qed

lemma Use_result:
  assumes "Use slot sl = Inr sl'"
  shows "in_slice (data sl) slot \<and> sl' = sl\<lparr>data := clear_bit_at (data sl) slot\<rparr>"
  using assms by (auto simp: Use_def split: if_splits)

lemma size_extend_1: "size' (extend 1 sl) = size' sl + 8"
  by (simp add: extend_def)

lemma Next_Use_Next_differ:
  assumes "Next t = Inr (s1, t1)" "Use s1 t1 = Inr t2" "Next t2 = Inr (s2, t3)"
  shows "s1 \<noteq> s2"
proof -
  from Use_result [OF assms(2)] have s: "in_slice (data t1) s1"
    and e2: "t2 = t1\<lparr>data := clear_bit_at (data t1) s1\<rparr>" by simp_all
  have u: "slot_used t2 s1" using s by (simp add: e2 slot_used_clear_bit_at)
  have sz: "size' t2 \<noteq> s1"
  proof -
    from Next_cases [OF assms(1)]
    have "(s1 < size' t \<and> size' t1 = size' t) \<or> (s1 = size' t \<and> size' t1 = size' t + 8)"
      by (auto simp: size_extend_1)
    then show ?thesis by (auto simp: e2)
  qed
  from Next_cases [OF assms(3)]
  have "slot_free t2 s2 \<or> s2 = size' t2" by blast
  then show ?thesis
  proof
    assume "slot_free t2 s2"
    with u show ?thesis by (auto simp: slot_free_def slot_used_def)
  next
    assume "s2 = size' t2"
    with sz show ?thesis by simp
  qed
qed

text \<open>
  C4. In the fixed-size version the slot handed out by \<open>pop\<close> is the head before the
  call: when it is below the size and \<open>pop\<close> returns, the new head, which is what the
  next \<open>pop\<close> hands out, is strictly greater, and the slot handed out is marked used.
  In slots.go, \<open>Next\<close>, then \<open>Use\<close> of the slot it returned, then \<open>Next\<close> again never
  return the same slot twice. Both hold in every state, with no call of \<open>push\<close> or
  \<open>Free\<close> in between.
\<close>

theorem no_double_allocation:
  "(head sl < size' sl \<longrightarrow> pop sl = Inr sl1 \<longrightarrow>
      head sl < head sl1 \<and> slot_used sl1 (head sl)) \<and>
   (Next t = Inr (s1, t1) \<longrightarrow> Use s1 t1 = Inr t2 \<longrightarrow> Next t2 = Inr (s2, t3) \<longrightarrow>
      s1 \<noteq> s2)"
  using pop_advances [of sl sl1] Next_Use_Next_differ [of t s1 t1 t2 s2 t3]
  by blast

text \<open>The theorem on a bitvector of 16 free slots, and on the empty bitvector of slots.go.\<close>

theorem no_double_allocation_witness:
  "head \<lparr>data = [0xff, 0xff], head = 0, size' = 16,
          file' = \<lparr>content = [], offset = 0, failing = []\<rparr>\<rparr>
     < size' \<lparr>data = [0xff, 0xff], head = 0, size' = 16,
               file' = \<lparr>content = [], offset = 0, failing = []\<rparr>\<rparr> \<and>
   pop \<lparr>data = [0xff, 0xff], head = 0, size' = 16,
        file' = \<lparr>content = [], offset = 0, failing = []\<rparr>\<rparr>
     = Inr \<lparr>data = [0xfe, 0xff], head = 1, size' = 16,
            file' = \<lparr>content = [], offset = 0, failing = []\<rparr>\<rparr> \<and>
   slot_used \<lparr>data = [0xfe, 0xff], head = 1, size' = 16,
              file' = \<lparr>content = [], offset = 0, failing = []\<rparr>\<rparr> 0 \<and>
   Next \<lparr>data = [], head = 0, size' = 0,
         file' = \<lparr>content = [], offset = 0, failing = []\<rparr>\<rparr>
     = Inr (0, \<lparr>data = [0xff], head = 0, size' = 8,
                file' = \<lparr>content = [], offset = 0, failing = []\<rparr>\<rparr>) \<and>
   Use 0 \<lparr>data = [0xff], head = 0, size' = 8,
          file' = \<lparr>content = [], offset = 0, failing = []\<rparr>\<rparr>
     = Inr \<lparr>data = [0xfe], head = 0, size' = 8,
            file' = \<lparr>content = [], offset = 0, failing = []\<rparr>\<rparr> \<and>
   Next \<lparr>data = [0xfe], head = 0, size' = 8,
         file' = \<lparr>content = [], offset = 0, failing = []\<rparr>\<rparr>
     = Inr (1, \<lparr>data = [0xfe], head = 1, size' = 8,
                file' = \<lparr>content = [], offset = 0, failing = []\<rparr>\<rparr>) \<and>
   (0::uint32) \<noteq> 1"
proof -
  let ?F = "\<lparr>content = [], offset = 0, failing = []\<rparr>"
  let ?A = "\<lparr>data = [0xff, 0xff], head = 0, size' = 16, file' = ?F\<rparr>"
  let ?B = "\<lparr>data = [0xfe, 0xff], head = 1, size' = 16, file' = ?F\<rparr>"
  let ?T = "\<lparr>data = [], head = 0, size' = 0, file' = ?F\<rparr>"
  let ?U = "\<lparr>data = [0xff], head = 0, size' = 8, file' = ?F\<rparr>"
  let ?V = "\<lparr>data = [0xfe], head = 0, size' = 8, file' = ?F\<rparr>"
  let ?W = "\<lparr>data = [0xfe], head = 1, size' = 8, file' = ?F\<rparr>"
  have a: "head ?A < size' ?A" by simp
  have b: "pop ?A = Inr ?B" by code_simp
  have c: "Next ?T = Inr (0, ?U)" by code_simp
  have d: "Use 0 ?U = Inr ?V" by code_simp
  have e: "Next ?V = Inr (1, ?W)" by code_simp
  from no_double_allocation [of ?A ?B ?T 0 ?U ?V 1 ?W] a b c d e
  have "slot_used ?B (head ?A) \<and> (0::uint32) \<noteq> 1" by blast
  then have "slot_used ?B 0 \<and> (0::uint32) \<noteq> 1" by simp
  with a b c d e show ?thesis by blast
qed


section \<open>Allocation when no slot is left\<close>

text \<open>
  C5, as amended. When the head has reached the size, no signal of exhaustion is
  returned. \<open>pop\<close> of the fixed-size version returns with the state as it was. \<open>Next\<close> of
  slots.go appends one byte \<open>0xff\<close> to the bitvector, adds 8 to the size, and returns the
  old size as the slot, which becomes the head; the caller calls no growth function.
\<close>

theorem allocate_when_exhausted:
  "size' sl \<le> head sl \<longrightarrow>
     pop sl = Inr sl \<and>
     Next sl = Inr (size' sl, sl\<lparr>size' := size' sl + 8, data := data sl @ [0xff], head := size' sl\<rparr>)"
proof
  assume a: "size' sl \<le> head sl"
  then have n: "\<not> head sl < size' sl" by simp
  have "pop sl = Inr sl" using a by (simp add: pop_def Let_def)
  moreover have "next_mtx_from sl (head sl) = Inr (size' sl, sl\<lparr>size' := size' sl + 8, data := data sl @ [0xff]\<rparr>)"
    using n by (simp add: next_mtx_from.simps [of sl "head sl"] Let_def extend_def)
  then have "Next sl = Inr (size' sl, sl\<lparr>size' := size' sl + 8, data := data sl @ [0xff], head := size' sl\<rparr>)"
    by (simp add: Next_def next_mtx_def)
  ultimately show "pop sl = Inr sl \<and>
     Next sl = Inr (size' sl, sl\<lparr>size' := size' sl + 8, data := data sl @ [0xff], head := size' sl\<rparr>)"
    by simp
qed

text \<open>The theorem on one byte with all 8 slots used.\<close>

theorem allocate_when_exhausted_witness:
  "size' \<lparr>data = [0], head = 8, size' = 8, file' = \<lparr>content = [], offset = 0, failing = []\<rparr>\<rparr>
     \<le> head \<lparr>data = [0], head = 8, size' = 8, file' = \<lparr>content = [], offset = 0, failing = []\<rparr>\<rparr> \<and>
   pop \<lparr>data = [0], head = 8, size' = 8, file' = \<lparr>content = [], offset = 0, failing = []\<rparr>\<rparr>
     = Inr \<lparr>data = [0], head = 8, size' = 8, file' = \<lparr>content = [], offset = 0, failing = []\<rparr>\<rparr> \<and>
   Next \<lparr>data = [0], head = 8, size' = 8, file' = \<lparr>content = [], offset = 0, failing = []\<rparr>\<rparr>
     = Inr (8, \<lparr>data = [0, 0xff], head = 8, size' = 16,
                file' = \<lparr>content = [], offset = 0, failing = []\<rparr>\<rparr>)"
proof -
  let ?A = "\<lparr>data = [0], head = 8, size' = 8, file' = \<lparr>content = [], offset = 0, failing = []\<rparr>\<rparr>"
  have a: "size' ?A \<le> head ?A" by simp
  with allocate_when_exhausted [of ?A] show ?thesis by simp
qed

text \<open>
  As the specification states it, the property fails on that state: the head equals the size, \<open>Next\<close> returns slot 8
  and a state grown to 16 slots, and \<open>pop\<close> returns normally without any change.
\<close>

theorem exhaustion_counterexample:
  "head \<lparr>data = [0], head = 8, size' = 8, file' = \<lparr>content = [], offset = 0, failing = []\<rparr>\<rparr>
     = size' \<lparr>data = [0], head = 8, size' = 8, file' = \<lparr>content = [], offset = 0, failing = []\<rparr>\<rparr> \<and>
   Next \<lparr>data = [0], head = 8, size' = 8, file' = \<lparr>content = [], offset = 0, failing = []\<rparr>\<rparr>
     = Inr (8, \<lparr>data = [0, 0xff], head = 8, size' = 16,
                file' = \<lparr>content = [], offset = 0, failing = []\<rparr>\<rparr>) \<and>
   pop \<lparr>data = [0], head = 8, size' = 8, file' = \<lparr>content = [], offset = 0, failing = []\<rparr>\<rparr>
     = Inr \<lparr>data = [0], head = 8, size' = 8, file' = \<lparr>content = [], offset = 0, failing = []\<rparr>\<rparr>"
  by code_simp

section \<open>Slots out of range\<close>

lemma beyond_size_not_in_slice:
  assumes "unat (size' sl) = 8 * length (data sl)" "size' sl \<le> slot"
  shows "\<not> in_slice (data sl) slot"
proof -
  have "8 * length (data sl) \<le> unat slot"
    using assms by (simp add: word_le_nat_alt)
  then show ?thesis by (simp add: in_slice_def unat_div)
qed

lemma Free_beyond:
  assumes "\<not> in_slice (data sl) slot" "head sl \<le> slot"
  shows "Free slot sl = Inl (IndexOutOfRange, sl)"
  using assms by (simp add: Free_def Let_def)

lemma Use_beyond:
  assumes "\<not> in_slice (data sl) slot"
  shows "Use slot sl = Inl (IndexOutOfRange, sl)"
  using assms by (simp add: Use_def)

text \<open>
  C9, as amended. Neither version compares a slot with the size; an index outside the
  slice panics. For a slot whose byte lies beyond the bitvector, \<open>push\<close> and \<open>Free\<close> fail
  with the state unchanged when the slot is not below the head, and \<open>Use\<close> fails with the
  state unchanged. In a state of slots.go whose size is eight times the number of bytes
  and whose head is at most the size, this is the case of every slot at or above the size.
\<close>

theorem out_of_range_panics:
  "(length (data sl) \<le> unat (slot div 8) \<and> head sl \<le> slot \<longrightarrow>
      push slot sl = Inl (IndexOutOfRange, sl) \<and> Free slot sl = Inl (IndexOutOfRange, sl)) \<and>
   (length (data sl) \<le> unat (slot div 8) \<longrightarrow> Use slot sl = Inl (IndexOutOfRange, sl)) \<and>
   (unat (size' sl) = 8 * length (data sl) \<and> head sl \<le> size' sl \<and> size' sl \<le> slot \<longrightarrow>
      Free slot sl = Inl (IndexOutOfRange, sl) \<and> Use slot sl = Inl (IndexOutOfRange, sl))"
proof (intro conjI impI)
  assume a: "length (data sl) \<le> unat (slot div 8) \<and> head sl \<le> slot"
  then have "\<not> in_slice (data sl) slot" by (simp add: in_slice_def)
  with a show "push slot sl = Inl (IndexOutOfRange, sl)" "Free slot sl = Inl (IndexOutOfRange, sl)"
    by (simp_all add: Free_beyond push_eq_Free)
next
  assume "length (data sl) \<le> unat (slot div 8)"
  then have "\<not> in_slice (data sl) slot" by (simp add: in_slice_def)
  then show "Use slot sl = Inl (IndexOutOfRange, sl)" by (rule Use_beyond)
next
  assume a: "unat (size' sl) = 8 * length (data sl) \<and> head sl \<le> size' sl \<and> size' sl \<le> slot"
  then have n: "\<not> in_slice (data sl) slot" using beyond_size_not_in_slice [of sl slot] by blast
  from a have "head sl \<le> slot" by (meson order_trans)
  with n show "Free slot sl = Inl (IndexOutOfRange, sl)" by (rule Free_beyond)
  from n show "Use slot sl = Inl (IndexOutOfRange, sl)" by (rule Use_beyond)
qed

text \<open>The theorem at slot 8 of a bitvector of one byte.\<close>

theorem out_of_range_panics_witness:
  "length (data \<lparr>data = [0xf8], head = 3, size' = 8,
                 file' = \<lparr>content = [], offset = 0, failing = []\<rparr>\<rparr>) \<le> unat ((8::uint32) div 8) \<and>
   head \<lparr>data = [0xf8], head = 3, size' = 8,
         file' = \<lparr>content = [], offset = 0, failing = []\<rparr>\<rparr> \<le> 8 \<and>
   unat (size' \<lparr>data = [0xf8], head = 3, size' = 8,
         file' = \<lparr>content = [], offset = 0, failing = []\<rparr>\<rparr>)
     = 8 * length (data \<lparr>data = [0xf8], head = 3, size' = 8,
         file' = \<lparr>content = [], offset = 0, failing = []\<rparr>\<rparr>) \<and>
   head \<lparr>data = [0xf8], head = 3, size' = 8,
         file' = \<lparr>content = [], offset = 0, failing = []\<rparr>\<rparr>
     \<le> size' \<lparr>data = [0xf8], head = 3, size' = 8,
         file' = \<lparr>content = [], offset = 0, failing = []\<rparr>\<rparr> \<and>
   size' \<lparr>data = [0xf8], head = 3, size' = 8,
         file' = \<lparr>content = [], offset = 0, failing = []\<rparr>\<rparr> \<le> 8 \<and>
   push 8 \<lparr>data = [0xf8], head = 3, size' = 8,
           file' = \<lparr>content = [], offset = 0, failing = []\<rparr>\<rparr>
     = Inl (IndexOutOfRange, \<lparr>data = [0xf8], head = 3, size' = 8,
           file' = \<lparr>content = [], offset = 0, failing = []\<rparr>\<rparr>) \<and>
   Free 8 \<lparr>data = [0xf8], head = 3, size' = 8,
           file' = \<lparr>content = [], offset = 0, failing = []\<rparr>\<rparr>
     = Inl (IndexOutOfRange, \<lparr>data = [0xf8], head = 3, size' = 8,
           file' = \<lparr>content = [], offset = 0, failing = []\<rparr>\<rparr>) \<and>
   Use 8 \<lparr>data = [0xf8], head = 3, size' = 8,
           file' = \<lparr>content = [], offset = 0, failing = []\<rparr>\<rparr>
     = Inl (IndexOutOfRange, \<lparr>data = [0xf8], head = 3, size' = 8,
           file' = \<lparr>content = [], offset = 0, failing = []\<rparr>\<rparr>)"
proof -
  let ?A = "\<lparr>data = [0xf8], head = 3, size' = 8,
             file' = \<lparr>content = [], offset = 0, failing = []\<rparr>\<rparr>"
  have a: "length (data ?A) \<le> unat ((8::uint32) div 8)" by simp
  have b: "head ?A \<le> 8" by simp
  have c: "unat (size' ?A) = 8 * length (data ?A)" by simp
  have e: "head ?A \<le> size' ?A" by simp
  have f: "size' ?A \<le> 8" by simp
  from out_of_range_panics [of ?A 8] a b c e f
  have "push 8 ?A = Inl (IndexOutOfRange, ?A) \<and> Free 8 ?A = Inl (IndexOutOfRange, ?A) \<and>
        Use 8 ?A = Inl (IndexOutOfRange, ?A)"
    by blast
  with a b c e f show ?thesis by blast
qed

text \<open>
  As the specification states it, the property fails in the fixed-size version: loaded with size 8 from a file of
  two bytes, \<open>push 9\<close> is given a slot above the size, returns normally and sets a bit.
\<close>

theorem out_of_range_counterexample:
  "load_fixed (newSlots_fixed \<lparr>content = [0, 0], offset = 0, failing = []\<rparr> 8)
     = Inr \<lparr>data = [0, 0], head = 8, size' = 8,
            file' = \<lparr>content = [0, 0], offset = 2, failing = []\<rparr>\<rparr> \<and>
   size' \<lparr>data = [0, 0], head = 8, size' = 8,
          file' = \<lparr>content = [0, 0], offset = 2, failing = []\<rparr>\<rparr> \<le> 9 \<and>
   push 9 \<lparr>data = [0, 0], head = 8, size' = 8,
           file' = \<lparr>content = [0, 0], offset = 2, failing = []\<rparr>\<rparr>
     = Inr \<lparr>data = [0, 2], head = 8, size' = 8,
            file' = \<lparr>content = [0, 0], offset = 2, failing = []\<rparr>\<rparr>"
  by code_simp

section \<open>Next alone does not consume a slot\<close>













section \<open>Capacity and the length of the bitvector\<close>

lemma Free_shape:
  assumes "Free slot s = Inr s'"
  shows "size' s' = size' s \<and> length (data s') = length (data s)"
  using assms by (auto simp: Free_def Let_def split: if_splits)

lemma Use_shape:
  assumes "Use slot s = Inr s'"
  shows "size' s' = size' s \<and> length (data s') = length (data s)"
  using assms by (auto simp: Use_def split: if_splits)

lemma Save_shape:
  assumes "Save s = Inr s'"
  shows "size' s' = size' s \<and> data s' = data s \<and> head s' = head s"
  using assms by (auto simp: Save_def split: sum.splits)

lemma pop_shape:
  assumes "pop s = Inr s'"
  shows "size' s' = size' s \<and> length (data s') = length (data s)"
  using pop_cases [OF assms] by auto

lemma step_fixed_shape:
  assumes "size' s = c \<and> length (data s) = n" "step_fixed x s = Inr s'"
  shows "size' s' = c \<and> length (data s') = n"
proof (cases x)
  case (DoPush h)
  with assms show ?thesis using Free_shape [of h s s'] by (simp add: push_eq_Free)
next
  case DoPop
  with assms show ?thesis using pop_shape [of s s'] by simp
next
  case DoSave
  with assms show ?thesis using Save_shape [of s s'] by (simp add: save_eq_Save)
qed

lemma run_fixed_shape:
  assumes "run_fixed ops s = Inr s'"
  shows "size' s' = size' s \<and> length (data s') = length (data s)"
  using run_fixed_invariant [of "\<lambda>s0. size' s0 = size' s \<and> length (data s0) = length (data s)" s ops s']
    step_fixed_shape assms by blast

lemma load_fixed_shape:
  assumes "load_fixed (newSlots_fixed f sz) = Inr s"
  shows "size' s = sz \<and>
         length (data s) = max (length (drop (offset f) (content f))) ((unat sz + 7) div 8)"
proof -
  from load_fixed_result [OF assms] obtain bs f' r where
    r: "file_ReadAll f = Inr (bs, f')" and
    s: "s = (newSlots_fixed f sz)\<lparr>file' := f', data := padded bs (size' (newSlots_fixed f sz)), head := r\<rparr>"
    by (auto simp: newSlots_fixed_def)
  from r have "bs = drop (offset f) (content f)"
    by (auto simp: file_ReadAll_def split: if_splits)
  then show ?thesis by (simp add: s newSlots_fixed_def length_padded)
qed

lemma sized_extend: "sized t \<Longrightarrow> sized (extend (int n) t)"
  by (simp add: sized_def extend_def algebra_simps)

lemma Next_sized:
  assumes "sized t" "Next t = Inr (h, t')"
  shows "sized t'"
proof -
  from Next_cases [OF assms(2)]
  have "t' = t\<lparr>head := h\<rparr> \<or> t' = (extend (int 1) t)\<lparr>head := h\<rparr>" by auto
  then show ?thesis using assms(1) sized_extend [of t 1] by (auto simp: sized_def)
qed

lemma step_mtx_sized:
  assumes "sized t" "step_mtx x t = Inr t'"
  shows "sized t'"
proof (cases x)
  case CallNext
  with assms obtain h where "Next t = Inr (h, t')" by (auto split: sum.splits)
  from Next_sized [OF assms(1) this] show ?thesis .
next
  case (CallFree slot)
  with assms show ?thesis using Free_shape [of slot t t'] by (simp add: sized_def)
next
  case (CallUse slot)
  with assms show ?thesis using Use_shape [of slot t t'] by (simp add: sized_def)
next
  case (CallExtend n)
  with assms show ?thesis using sized_extend [of t n] by auto
next
  case CallSave
  with assms show ?thesis using Save_shape [of t t'] by (simp add: sized_def)
qed

lemma load_sized:
  assumes "load t = Inr t'"
  shows "sized t'"
  using load_result [OF assms] by (auto simp: sized_def mult.commute)

lemma run_mtx_sized:
  assumes "sized t" "run_mtx calls t = Inr t'"
  shows "sized t'"
  using run_mtx_invariant [of sized t calls t'] step_mtx_sized assms by blast

lemma sized_mod_8:
  assumes "sized t"
  shows "size' t mod 8 = 0"
proof -
  have "unat (size' t mod 8) = (8 * length (data t)) mod 2 ^ 32 mod 8"
    using assms by (simp only: sized_def unat_mod unat_of_nat) simp
  also have "\<dots> = (8 * length (data t)) mod 8"
    by (rule mod_mod_cancel) simp
  also have "\<dots> = 0" by simp
  finally show ?thesis by (simp add: unat_eq_0)
qed

lemma sized_unat:
  assumes "sized t" "length (data t) < 2 ^ 29"
  shows "unat (size' t) = 8 * length (data t)"
proof -
  have "unat (size' t) = (8 * length (data t)) mod 2 ^ 32"
    using assms(1) by (simp only: sized_def unat_of_nat) simp
  moreover have "8 * length (data t) < 2 ^ 32" using assms(2) by simp
  ultimately show ?thesis by simp
qed

text \<open>
  C3, as amended. In the fixed-size version the size is the argument of the constructor
  after \<open>load\<close> and every later call, and the bitvector has as many bytes as the file
  had, or as the size needs when that is more; so the bitvector covers the size, and the
  size is eight times the number of bytes when it is a multiple of 8 and the file had no
  more bytes than that. In slots.go, after \<open>load\<close> and every later call, the size is
  eight times the number of bytes computed in \<open>uint32\<close>, hence a multiple of 8, and it is
  exactly eight times the number of bytes while there are fewer than \<open>2 ^ 29\<close> bytes.
\<close>

theorem capacity_and_length:
  "(load_fixed (newSlots_fixed f sz) = Inr s0 \<longrightarrow> run_fixed ops s0 = Inr s \<longrightarrow>
      size' s = sz \<and>
      length (data s) = max (length (drop (offset f) (content f))) ((unat sz + 7) div 8) \<and>
      unat (size' s) \<le> 8 * length (data s) \<and>
      (unat sz mod 8 = 0 \<and> 8 * length (drop (offset f) (content f)) \<le> unat sz \<longrightarrow>
         unat (size' s) = 8 * length (data s))) \<and>
   (load (newSlots g) = Inr t0 \<longrightarrow> run_mtx calls t0 = Inr t \<longrightarrow>
      size' t = of_nat (8 * length (data t)) \<and>
      size' t mod 8 = 0 \<and>
      (length (data t) < 2 ^ 29 \<longrightarrow> unat (size' t) = 8 * length (data t)))"
proof (intro conjI impI)
  assume a: "load_fixed (newSlots_fixed f sz) = Inr s0" and b: "run_fixed ops s0 = Inr s"
  let ?n = "length (drop (offset f) (content f))"
  from load_fixed_shape [OF a] run_fixed_shape [OF b]
  show sz: "size' s = sz" and len: "length (data s) = max ?n ((unat sz + 7) div 8)"
    by simp_all
  have "unat sz \<le> 8 * ((unat sz + 7) div 8)" by presburger
  also have "\<dots> \<le> 8 * length (data s)" by (simp add: len)
  finally show "unat (size' s) \<le> 8 * length (data s)" by (simp add: sz)
  assume c: "unat sz mod 8 = 0 \<and> 8 * ?n \<le> unat sz"
  then have "(unat sz + 7) div 8 = unat sz div 8" by presburger
  moreover have "?n \<le> unat sz div 8" using c by presburger
  moreover have "8 * (unat sz div 8) = unat sz" using c by presburger
  ultimately show "unat (size' s) = 8 * length (data s)" by (simp add: sz len)
next
  assume a: "load (newSlots g) = Inr t0" and b: "run_mtx calls t0 = Inr t"
  have s: "sized t" using run_mtx_sized [OF load_sized [OF a] b] .
  then show "size' t = of_nat (8 * length (data t))" by (simp only: sized_def)
  from s show "size' t mod 8 = 0" by (rule sized_mod_8)
  assume "length (data t) < 2 ^ 29"
  with s show "unat (size' t) = 8 * length (data t)" by (rule sized_unat)
qed

text \<open>The theorem on a file of one byte, loaded with size 16, and loaded by slots.go.\<close>

theorem capacity_and_length_witness:
  "load_fixed (newSlots_fixed \<lparr>content = [0xf8], offset = 0, failing = []\<rparr> 16)
     = Inr \<lparr>data = [0xf8, 0xff], head = 3, size' = 16,
            file' = \<lparr>content = [0xf8], offset = 1, failing = []\<rparr>\<rparr> \<and>
   run_fixed [DoPop, DoPush 1]
       \<lparr>data = [0xf8, 0xff], head = 3, size' = 16,
        file' = \<lparr>content = [0xf8], offset = 1, failing = []\<rparr>\<rparr>
     = Inr \<lparr>data = [0xf2, 0xff], head = 1, size' = 16,
            file' = \<lparr>content = [0xf8], offset = 1, failing = []\<rparr>\<rparr> \<and>
   unat (16::uint32) mod 8 = 0 \<and>
   8 * length (drop (offset \<lparr>content = [0xf8], offset = 0, failing = []\<rparr>)
                    (content \<lparr>content = [0xf8::byte], offset = 0, failing = []\<rparr>)) \<le> unat (16::uint32) \<and>
   unat (size' \<lparr>data = [0xf2, 0xff], head = 1, size' = 16,
            file' = \<lparr>content = [0xf8], offset = 1, failing = []\<rparr>\<rparr>)
     = 8 * length (data \<lparr>data = [0xf2, 0xff], head = 1, size' = 16,
            file' = \<lparr>content = [0xf8], offset = 1, failing = []\<rparr>\<rparr>) \<and>
   load (newSlots \<lparr>content = [0xf8], offset = 0, failing = []\<rparr>)
     = Inr \<lparr>data = [0xf8], head = 0, size' = 8,
            file' = \<lparr>content = [0xf8], offset = 1, failing = []\<rparr>\<rparr> \<and>
   run_mtx [CallNext, CallUse 3, CallExtend 2]
       \<lparr>data = [0xf8], head = 0, size' = 8,
        file' = \<lparr>content = [0xf8], offset = 1, failing = []\<rparr>\<rparr>
     = Inr \<lparr>data = [0xf0, 0xff, 0xff], head = 3, size' = 24,
            file' = \<lparr>content = [0xf8], offset = 1, failing = []\<rparr>\<rparr> \<and>
   length (data \<lparr>data = [0xf0, 0xff, 0xff], head = 3, size' = 24,
            file' = \<lparr>content = [0xf8], offset = 1, failing = []\<rparr>\<rparr>) < 2 ^ 29 \<and>
   unat (size' \<lparr>data = [0xf0, 0xff, 0xff], head = 3, size' = 24,
            file' = \<lparr>content = [0xf8], offset = 1, failing = []\<rparr>\<rparr>)
     = 8 * length (data \<lparr>data = [0xf0, 0xff, 0xff], head = 3, size' = 24,
            file' = \<lparr>content = [0xf8], offset = 1, failing = []\<rparr>\<rparr>)"
proof -
  let ?F = "\<lparr>content = [0xf8::byte], offset = 0, failing = []\<rparr>"
  let ?G = "\<lparr>content = [0xf8::byte], offset = 1, failing = []\<rparr>"
  let ?A = "\<lparr>data = [0xf8, 0xff], head = 3, size' = 16, file' = ?G\<rparr>"
  let ?B = "\<lparr>data = [0xf2, 0xff], head = 1, size' = 16, file' = ?G\<rparr>"
  let ?T = "\<lparr>data = [0xf8], head = 0, size' = 8, file' = ?G\<rparr>"
  let ?U = "\<lparr>data = [0xf0, 0xff, 0xff], head = 3, size' = 24, file' = ?G\<rparr>"
  let ?ops = "[DoPop, DoPush 1]"
  let ?calls = "[CallNext, CallUse 3, CallExtend 2]"
  have a: "load_fixed (newSlots_fixed ?F 16) = Inr ?A" by code_simp
  have b: "run_fixed ?ops ?A = Inr ?B" by code_simp
  have c: "unat (16::uint32) mod 8 = 0" by simp
  have d: "8 * length (drop (offset ?F) (content ?F)) \<le> unat (16::uint32)" by simp
  have e: "load (newSlots ?F) = Inr ?T" by code_simp
  have f: "run_mtx ?calls ?T = Inr ?U" by code_simp
  have g: "length (data ?U) < 2 ^ 29" by simp
  from capacity_and_length [of ?F 16 ?A ?ops ?B ?F ?T ?calls ?U] a b c d e f g
  have "unat (size' ?B) = 8 * length (data ?B) \<and> unat (size' ?U) = 8 * length (data ?U)"
    by blast
  with a b c d e f g show ?thesis by blast
qed

text \<open>
  As the specification states it, the property fails in the fixed-size version: with size 10 and an empty file the
  size is no multiple of 8, and the bitvector has 2 bytes where \<open>10 / 8\<close> is 1.
\<close>

theorem capacity_and_length_counterexample:
  "load_fixed (newSlots_fixed \<lparr>content = [], offset = 0, failing = []\<rparr> 10)
     = Inr \<lparr>data = [0xff, 0xff], head = 0, size' = 10,
            file' = \<lparr>content = [], offset = 0, failing = []\<rparr>\<rparr> \<and>
   unat (size' \<lparr>data = [0xff, 0xff], head = 0, size' = 10,
                 file' = \<lparr>content = [], offset = 0, failing = []\<rparr>\<rparr>) mod 8 = 2 \<and>
   length (data \<lparr>data = [0xff, 0xff], head = 0, size' = 10,
                 file' = \<lparr>content = [], offset = 0, failing = []\<rparr>\<rparr>) = 2 \<and>
   unat (size' \<lparr>data = [0xff, 0xff], head = 0, size' = 10,
                 file' = \<lparr>content = [], offset = 0, failing = []\<rparr>\<rparr>) div 8 = 1"
  by code_simp

section \<open>Loading\<close>

lemma load_fixed_keeps_bytes:
  assumes "file_ReadAll f = Inr (bs, f')" "unat sz \<le> 8 * length bs"
  shows "\<exists>h. load_fixed (newSlots_fixed f sz)
               = Inr \<lparr>data = bs, head = h, size' = sz, file' = f'\<rparr>"
proof -
  have r: "file_ReadAll (file' (newSlots_fixed f sz)) = Inr (bs, f')"
    using assms(1) by (simp add: newSlots_fixed_def)
  from load_fixed_total [OF r] obtain h where
    "load_fixed (newSlots_fixed f sz)
       = Inr ((newSlots_fixed f sz)\<lparr>file' := f', data := padded bs (size' (newSlots_fixed f sz)), head := h\<rparr>)"
    by blast
  then have "load_fixed (newSlots_fixed f sz) = Inr \<lparr>data = bs, head = h, size' = sz, file' = f'\<rparr>"
    using assms(2) by (simp add: newSlots_fixed_def padded_id)
  then show ?thesis by blast
qed

lemma load_keeps_bytes:
  assumes "file_ReadAll g = Inr (bs, g')"
  shows "load (newSlots g) = Inr \<lparr>data = bs, head = 0, size' = of_nat (8 * length bs), file' = g'\<rparr>"
  using assms by (simp add: load_def newSlots_def mult.commute)

text \<open>
  C6, as amended. When the file holds more bits than the size asked for, \<open>load\<close> of the
  fixed-size version keeps every byte of the file and appends none, and the size stays
  the one asked for. \<open>load\<close> of slots.go takes no size: it keeps every byte and sets the
  size to eight times their number, computed in \<open>uint32\<close>.
\<close>

theorem load_never_truncates:
  "(file_ReadAll f = Inr (bs, f') \<and> unat sz < 8 * length bs \<longrightarrow>
      (\<exists>h. load_fixed (newSlots_fixed f sz)
             = Inr \<lparr>data = bs, head = h, size' = sz, file' = f'\<rparr>)) \<and>
   (file_ReadAll g = Inr (cs, g') \<longrightarrow>
      load (newSlots g)
        = Inr \<lparr>data = cs, head = 0, size' = of_nat (8 * length cs), file' = g'\<rparr>)"
  using load_fixed_keeps_bytes [of f bs f' sz] load_keeps_bytes [of g cs g']
  by simp

text \<open>The theorem on a file of two bytes and the size 8.\<close>

theorem load_never_truncates_witness:
  "file_ReadAll \<lparr>content = [0xfe, 0xff], offset = 0, failing = []\<rparr>
     = Inr ([0xfe, 0xff], \<lparr>content = [0xfe, 0xff], offset = 2, failing = []\<rparr>) \<and>
   unat (8::uint32) < 8 * length [0xfe, 0xff :: byte] \<and>
   load_fixed (newSlots_fixed \<lparr>content = [0xfe, 0xff], offset = 0, failing = []\<rparr> 8)
     = Inr \<lparr>data = [0xfe, 0xff], head = 1, size' = 8,
            file' = \<lparr>content = [0xfe, 0xff], offset = 2, failing = []\<rparr>\<rparr> \<and>
   load (newSlots \<lparr>content = [0xfe, 0xff], offset = 0, failing = []\<rparr>)
     = Inr \<lparr>data = [0xfe, 0xff], head = 0, size' = 16,
            file' = \<lparr>content = [0xfe, 0xff], offset = 2, failing = []\<rparr>\<rparr>"
proof -
  let ?F = "\<lparr>content = [0xfe, 0xff :: byte], offset = 0, failing = []\<rparr>"
  let ?G = "\<lparr>content = [0xfe, 0xff :: byte], offset = 2, failing = []\<rparr>"
  have a: "file_ReadAll ?F = Inr ([0xfe, 0xff], ?G)" by code_simp
  have b: "unat (8::uint32) < 8 * length [0xfe, 0xff :: byte]" by simp
  have c: "load_fixed (newSlots_fixed ?F 8) = Inr \<lparr>data = [0xfe, 0xff], head = 1, size' = 8, file' = ?G\<rparr>"
    by code_simp
  from load_never_truncates [of ?F "[0xfe, 0xff]" ?G 8 ?F "[0xfe, 0xff]" ?G] a b
  have "load (newSlots ?F)
        = Inr \<lparr>data = [0xfe, 0xff], head = 0, size' = of_nat (8 * length [0xfe, 0xff :: byte]), file' = ?G\<rparr>"
    by blast
  then have "load (newSlots ?F) = Inr \<lparr>data = [0xfe, 0xff], head = 0, size' = 16, file' = ?G\<rparr>"
    by simp
  with a b c show ?thesis by blast
qed

text \<open>
  As the specification states it, the property fails in the fixed-size version: the file holds 16 bits, the size
  asked for is 8, and the size after \<open>load\<close> is 8.
\<close>

theorem load_never_truncates_counterexample:
  "load_fixed (newSlots_fixed \<lparr>content = [0xfe, 0xff], offset = 0, failing = []\<rparr> 8)
     = Inr \<lparr>data = [0xfe, 0xff], head = 1, size' = 8,
            file' = \<lparr>content = [0xfe, 0xff], offset = 2, failing = []\<rparr>\<rparr> \<and>
   unat (size' \<lparr>data = [0xfe, 0xff], head = 1, size' = 8,
            file' = \<lparr>content = [0xfe, 0xff], offset = 2, failing = []\<rparr>\<rparr>) = 8 \<and>
   length [0xfe, 0xff :: byte] * 8 = 16"
  by code_simp

lemma load_fixed_head:
  assumes "load_fixed (newSlots_fixed f sz) = Inr s"
  shows "(head s = size' s \<or> (head s < size' s \<and> slot_free s (head s))) \<and>
         (\<forall>i. i < head s \<longrightarrow> slot_used s i)"
proof -
  have b: "head_bound s" using load_fixed_head_bound [OF _ assms] by (simp add: newSlots_fixed_def)
  from load_fixed_result [OF assms] obtain bs f' r where
    n: "next_fixed_from ((newSlots_fixed f sz)\<lparr>file' := f', data := padded bs (size' (newSlots_fixed f sz))\<rparr>)
          (head (newSlots_fixed f sz)) = Inr r" and
    s: "s = (newSlots_fixed f sz)\<lparr>file' := f', data := padded bs (size' (newSlots_fixed f sz)), head := r\<rparr>"
    by blast
  from next_fixed_from_result [OF n]
  have "head s = size' s \<or> (head s < size' s \<and> slot_free s (head s))"
    by (auto simp: s slot_free_def)
  with b show ?thesis by (simp add: head_bound_def)
qed

lemma load_head:
  assumes "load t = Inr t'"
  shows "head t' = head t"
  using load_result [OF assms] by auto

text \<open>
  C7, as amended. After \<open>load\<close> of the fixed-size version on a new allocator, the head is
  either the size or a free slot below the size, and every slot below the head is used:
  the head is the smallest free slot below the size, or the size when there is none.
  \<open>load\<close> of slots.go does not scan: it leaves the head as it was, which is 0 on a new
  allocator.
\<close>

theorem load_sets_head:
  "(load_fixed (newSlots_fixed f sz) = Inr s \<longrightarrow>
      (head s = size' s \<or> (head s < size' s \<and> slot_free s (head s))) \<and>
      (\<forall>i. i < head s \<longrightarrow> slot_used s i)) \<and>
   (load t = Inr t' \<longrightarrow> head t' = head t) \<and>
   (load (newSlots g) = Inr t0 \<longrightarrow> head t0 = 0)"
proof (intro conjI impI)
  assume a: "load_fixed (newSlots_fixed f sz) = Inr s"
  from load_fixed_head [OF a]
  show "head s = size' s \<or> (head s < size' s \<and> slot_free s (head s))"
    and "\<forall>i. i < head s \<longrightarrow> slot_used s i" by simp_all
next
  assume "load t = Inr t'"
  then show "head t' = head t" by (rule load_head)
next
  assume "load (newSlots g) = Inr t0"
  from load_head [OF this] show "head t0 = 0" by (simp add: newSlots_def)
qed

text \<open>The theorem on a file of one byte with the slots 0, 1 and 2 used.\<close>

theorem load_sets_head_witness:
  "load_fixed (newSlots_fixed \<lparr>content = [0xf8], offset = 0, failing = []\<rparr> 16)
     = Inr \<lparr>data = [0xf8, 0xff], head = 3, size' = 16,
            file' = \<lparr>content = [0xf8], offset = 1, failing = []\<rparr>\<rparr> \<and>
   slot_used \<lparr>data = [0xf8, 0xff], head = 3, size' = 16,
            file' = \<lparr>content = [0xf8], offset = 1, failing = []\<rparr>\<rparr> 2 \<and>
   load (newSlots \<lparr>content = [0xf8], offset = 0, failing = []\<rparr>)
     = Inr \<lparr>data = [0xf8], head = 0, size' = 8,
            file' = \<lparr>content = [0xf8], offset = 1, failing = []\<rparr>\<rparr> \<and>
   head \<lparr>data = [0xf8], head = 0, size' = 8,
            file' = \<lparr>content = [0xf8], offset = 1, failing = []\<rparr>\<rparr> = 0"
proof -
  let ?F = "\<lparr>content = [0xf8::byte], offset = 0, failing = []\<rparr>"
  let ?G = "\<lparr>content = [0xf8::byte], offset = 1, failing = []\<rparr>"
  let ?A = "\<lparr>data = [0xf8, 0xff], head = 3, size' = 16, file' = ?G\<rparr>"
  let ?T = "\<lparr>data = [0xf8], head = 0, size' = 8, file' = ?G\<rparr>"
  have a: "load_fixed (newSlots_fixed ?F 16) = Inr ?A" by code_simp
  have b: "load (newSlots ?F) = Inr ?T" by code_simp
  from load_sets_head [of ?F 16 ?A "newSlots ?F" ?T ?F ?T] a b
  have "(\<forall>i. i < head ?A \<longrightarrow> slot_used ?A i) \<and> head ?T = 0" by blast
  then have "slot_used ?A 2 \<and> head ?T = 0" by simp
  with a b show ?thesis by blast
qed

text \<open>
  As the specification states it, the property fails in slots.go: on that file the head after \<open>load\<close> is 0, slot 0
  is used, and the smallest free slot is 3.
\<close>

theorem load_sets_head_counterexample:
  "load (newSlots \<lparr>content = [0xf8], offset = 0, failing = []\<rparr>)
     = Inr \<lparr>data = [0xf8], head = 0, size' = 8,
            file' = \<lparr>content = [0xf8], offset = 1, failing = []\<rparr>\<rparr> \<and>
   slot_used \<lparr>data = [0xf8], head = 0, size' = 8,
              file' = \<lparr>content = [0xf8], offset = 1, failing = []\<rparr>\<rparr> 0 \<and>
   slot_free \<lparr>data = [0xf8], head = 0, size' = 8,
              file' = \<lparr>content = [0xf8], offset = 1, failing = []\<rparr>\<rparr> 3"
  by code_simp

section \<open>Saving and loading again\<close>

lemma Save_writes_data:
  assumes "Save s = Inr s'"
  shows "content (file' s') = data s"
  using assms
  by (auto simp: Save_def file_Truncate_def file_Seek_def file_Write_def file_Sync_def
           split: sum.splits if_splits)

lemma fresh_ReadAll:
  assumes "offset f = 0" "ReadAll \<notin> set (failing f)"
  shows "file_ReadAll f = Inr (content f, f\<lparr>offset := length (content f)\<rparr>)"
  using assms by (simp add: file_ReadAll_def)

lemma run_fixed_covers:
  assumes "load_fixed (newSlots_fixed f sz) = Inr s0" "run_fixed ops s0 = Inr s"
  shows "unat (size' s) \<le> 8 * length (data s)"
proof -
  from load_fixed_shape [OF assms(1)] run_fixed_shape [OF assms(2)]
  have sz: "size' s = sz"
    and len: "length (data s) = max (length (drop (offset f) (content f))) ((unat sz + 7) div 8)"
    by simp_all
  have "unat sz \<le> 8 * ((unat sz + 7) div 8)" by presburger
  also have "\<dots> \<le> 8 * length (data s)" by (simp add: len)
  finally show ?thesis by (simp add: sz)
qed

text \<open>
  C2. A state reached from \<open>load\<close> by any run of calls is saved; a file with the content
  the save has left, opened at its start, is loaded into a new allocator, in the
  fixed-size version with a size that does not exceed the size of the saved state. The
  load succeeds and its bitvector is the saved one, byte for byte.
\<close>

theorem save_then_load:
  "(load_fixed (newSlots_fixed f0 sz0) = Inr s0 \<and> run_fixed ops s0 = Inr s \<and>
    save s = Inr s' \<and>
    content f = content (file' s') \<and> offset f = 0 \<and> ReadAll \<notin> set (failing f) \<and>
    sz \<le> size' s \<longrightarrow>
      (\<exists>r. load_fixed (newSlots_fixed f sz) = Inr r \<and> data r = data s)) \<and>
   (load (newSlots g0) = Inr t0 \<and> run_mtx calls t0 = Inr t \<and>
    Save t = Inr t' \<and>
    content g = content (file' t') \<and> offset g = 0 \<and> ReadAll \<notin> set (failing g) \<longrightarrow>
      (\<exists>r. load (newSlots g) = Inr r \<and> data r = data t))"
proof (intro conjI impI)
  assume a: "load_fixed (newSlots_fixed f0 sz0) = Inr s0 \<and> run_fixed ops s0 = Inr s \<and>
    save s = Inr s' \<and>
    content f = content (file' s') \<and> offset f = 0 \<and> ReadAll \<notin> set (failing f) \<and>
    sz \<le> size' s"
  then have c: "content f = data s" using Save_writes_data [of s s'] by (simp add: save_eq_Save)
  from a have r: "file_ReadAll f = Inr (data s, f\<lparr>offset := length (content f)\<rparr>)"
    using fresh_ReadAll [of f] c by simp
  have "unat (size' s) \<le> 8 * length (data s)" using a run_fixed_covers [of f0 sz0 s0 ops s] by blast
  moreover have "unat sz \<le> unat (size' s)" using a by (simp add: word_le_nat_alt)
  ultimately have "unat sz \<le> 8 * length (data s)" by simp
  from load_fixed_keeps_bytes [OF r this]
  show "\<exists>r. load_fixed (newSlots_fixed f sz) = Inr r \<and> data r = data s" by auto
next
  assume a: "load (newSlots g0) = Inr t0 \<and> run_mtx calls t0 = Inr t \<and>
    Save t = Inr t' \<and>
    content g = content (file' t') \<and> offset g = 0 \<and> ReadAll \<notin> set (failing g)"
  then have c: "content g = data t" using Save_writes_data [of t t'] by simp
  from a have r: "file_ReadAll g = Inr (data t, g\<lparr>offset := length (content g)\<rparr>)"
    using fresh_ReadAll [of g] c by simp
  from load_keeps_bytes [OF r]
  show "\<exists>r. load (newSlots g) = Inr r \<and> data r = data t" by simp
qed

text \<open>The theorem on the runs of the first section.\<close>

theorem save_then_load_witness:
  "load_fixed (newSlots_fixed \<lparr>content = [], offset = 0, failing = []\<rparr> 16)
     = Inr \<lparr>data = [0xff, 0xff], head = 0, size' = 16,
            file' = \<lparr>content = [], offset = 0, failing = []\<rparr>\<rparr> \<and>
   run_fixed [DoPop, DoPop, DoPop, DoPush 1, DoPop]
       \<lparr>data = [0xff, 0xff], head = 0, size' = 16,
        file' = \<lparr>content = [], offset = 0, failing = []\<rparr>\<rparr>
     = Inr \<lparr>data = [0xf8, 0xff], head = 3, size' = 16,
            file' = \<lparr>content = [], offset = 0, failing = []\<rparr>\<rparr> \<and>
   save \<lparr>data = [0xf8, 0xff], head = 3, size' = 16,
         file' = \<lparr>content = [], offset = 0, failing = []\<rparr>\<rparr>
     = Inr \<lparr>data = [0xf8, 0xff], head = 3, size' = 16,
            file' = \<lparr>content = [0xf8, 0xff], offset = 2, failing = []\<rparr>\<rparr> \<and>
   (16::uint32) \<le> size' \<lparr>data = [0xf8, 0xff], head = 3, size' = 16,
            file' = \<lparr>content = [], offset = 0, failing = []\<rparr>\<rparr> \<and>
   load_fixed (newSlots_fixed \<lparr>content = [0xf8, 0xff], offset = 0, failing = []\<rparr> 16)
     = Inr \<lparr>data = [0xf8, 0xff], head = 3, size' = 16,
            file' = \<lparr>content = [0xf8, 0xff], offset = 2, failing = []\<rparr>\<rparr> \<and>
   load (newSlots \<lparr>content = [], offset = 0, failing = []\<rparr>)
     = Inr \<lparr>data = [], head = 0, size' = 0,
            file' = \<lparr>content = [], offset = 0, failing = []\<rparr>\<rparr> \<and>
   run_mtx [CallNext, CallUse 0, CallNext, CallUse 1, CallFree 0]
       \<lparr>data = [], head = 0, size' = 0,
        file' = \<lparr>content = [], offset = 0, failing = []\<rparr>\<rparr>
     = Inr \<lparr>data = [0xfd], head = 0, size' = 8,
            file' = \<lparr>content = [], offset = 0, failing = []\<rparr>\<rparr> \<and>
   Save \<lparr>data = [0xfd], head = 0, size' = 8,
         file' = \<lparr>content = [], offset = 0, failing = []\<rparr>\<rparr>
     = Inr \<lparr>data = [0xfd], head = 0, size' = 8,
            file' = \<lparr>content = [0xfd], offset = 1, failing = []\<rparr>\<rparr> \<and>
   data (projr (load (newSlots \<lparr>content = [0xfd], offset = 0, failing = []\<rparr>))) = [0xfd]"
proof -
  let ?E = "\<lparr>content = [] :: byte list, offset = 0, failing = []\<rparr>"
  let ?A = "\<lparr>data = [0xff, 0xff], head = 0, size' = 16, file' = ?E\<rparr>"
  let ?B = "\<lparr>data = [0xf8, 0xff], head = 3, size' = 16, file' = ?E\<rparr>"
  let ?C = "\<lparr>data = [0xf8, 0xff], head = 3, size' = 16,
             file' = \<lparr>content = [0xf8, 0xff], offset = 2, failing = []\<rparr>\<rparr>"
  let ?F = "\<lparr>content = [0xf8, 0xff :: byte], offset = 0, failing = []\<rparr>"
  let ?T = "\<lparr>data = [], head = 0, size' = 0, file' = ?E\<rparr>"
  let ?U = "\<lparr>data = [0xfd], head = 0, size' = 8, file' = ?E\<rparr>"
  let ?V = "\<lparr>data = [0xfd], head = 0, size' = 8,
             file' = \<lparr>content = [0xfd], offset = 1, failing = []\<rparr>\<rparr>"
  let ?G = "\<lparr>content = [0xfd :: byte], offset = 0, failing = []\<rparr>"
  let ?ops = "[DoPop, DoPop, DoPop, DoPush 1, DoPop]"
  let ?calls = "[CallNext, CallUse 0, CallNext, CallUse 1, CallFree 0]"
  have a: "load_fixed (newSlots_fixed ?E 16) = Inr ?A" by code_simp
  have b: "run_fixed ?ops ?A = Inr ?B" by code_simp
  have c: "save ?B = Inr ?C" by code_simp
  have d: "content ?F = content (file' ?C) \<and> offset ?F = 0 \<and> ReadAll \<notin> set (failing ?F)" by simp
  have e: "(16::uint32) \<le> size' ?B" by simp
  have f: "load_fixed (newSlots_fixed ?F 16) = Inr ?C" by code_simp
  have g: "load (newSlots ?E) = Inr ?T" by code_simp
  have h: "run_mtx ?calls ?T = Inr ?U" by code_simp
  have i: "Save ?U = Inr ?V" by code_simp
  have j: "content ?G = content (file' ?V) \<and> offset ?G = 0 \<and> ReadAll \<notin> set (failing ?G)" by simp
  from save_then_load [of ?E 16 ?A ?ops ?B ?C ?F 16 ?E ?T ?calls ?U ?V ?G] g h i j
  have "\<exists>r. load (newSlots ?G) = Inr r \<and> data r = data ?U" by blast
  then have k: "data (projr (load (newSlots ?G))) = [0xfd]" by auto
  from a b c e f g h i k show ?thesis by blast
qed

end
